theory Spec2Isabelle
  imports Main "HOL-Library.AList"
begin

section \<open>JavaScript strings\<close>

text \<open>
  Two kinds of text are kept apart. Commands, paths, identifiers and file names are
  lists of characters with codes from 0 to 255, read as the code units of a JavaScript
  string. On these \<^verbatim>\<open>toLowerCase\<close> sends \<open>A\<close>..\<open>Z\<close> (65..90) and the accented
  capitals 192..222 other than the multiplication sign 215 to the character 32 places
  up and leaves every other character alone. The text of a chat message is measured
  after lower-casing, so it is held in full, as a list of 16-bit code units; see below.
\<close>

definition toLowerChar :: "char \<Rightarrow> char" where
  "toLowerChar c =
     (let n = (of_char c :: nat)
      in if (65 \<le> n \<and> n \<le> 90) \<or> (192 \<le> n \<and> n \<le> 222 \<and> n \<noteq> 215)
         then char_of (n + 32) else c)"

definition toLowerCase :: "string \<Rightarrow> string" where
  "toLowerCase s = map toLowerChar s"

text \<open>\<^verbatim>\<open>s.startsWith(k)\<close> and \<^verbatim>\<open>s.includes(k)\<close>: \<open>k\<close> occurs in \<open>s\<close> at
  position 0, respectively at some position.\<close>

fun startsWith :: "'a list \<Rightarrow> 'a list \<Rightarrow> bool" where
  "startsWith s [] = True"
| "startsWith [] (k # ks) = False"
| "startsWith (c # cs) (k # ks) = (c = k \<and> startsWith cs ks)"

fun str_includes :: "'a list \<Rightarrow> 'a list \<Rightarrow> bool" where
  "str_includes [] k = (k = [])"
| "str_includes (c # cs) k = (startsWith (c # cs) k \<or> str_includes cs k)"

text \<open>\<^verbatim>\<open>s.split(sep)\<close> for a one-character separator. The result is never empty
  (\<^verbatim>\<open>"".split(" ")\<close> is \<^verbatim>\<open>[""]\<close>), so element 0 always exists.\<close>

fun split_str :: "string \<Rightarrow> char \<Rightarrow> string list" where
  "split_str [] sep = [[]]"
| "split_str (c # cs) sep =
     (if c = sep then [] # split_str cs sep
      else (case split_str cs sep of
              [] \<Rightarrow> [[c]]
            | p # ps \<Rightarrow> (c # p) # ps))"

text \<open>\<^verbatim>\<open>s.replace(pat, by)\<close> with a string pattern replaces the first occurrence only.\<close>

fun replace_str :: "string \<Rightarrow> string \<Rightarrow> string \<Rightarrow> string" where
  "replace_str [] pat by = (if pat = [] then by else [])"
| "replace_str (c # cs) pat by =
     (if startsWith (c # cs) pat then by @ drop (length pat) (c # cs)
      else c # replace_str cs pat by)"

text \<open>\<^verbatim>\<open>n.toString()\<close> for a non-negative integer: its decimal digits.\<close>

definition digit_char :: "nat \<Rightarrow> char" where
  "digit_char d = ''0123456789'' ! (d mod 10)"

fun toString_nat :: "nat \<Rightarrow> string" where
  "toString_nat n = (if n < 10 then [digit_char n] else toString_nat (n div 10) @ [digit_char n])"

declare toString_nat.simps [simp del]

text \<open>
  The text of a message: a list of UTF-16 code units, which is what \<^verbatim>\<open>length\<close>
  counts. \<open>js\<close> reads a string of the first kind as such a text. \<^verbatim>\<open>toLowerCase\<close>
  works unit by unit here: it treats the units up to 255 as above, turns the capital I
  with a dot (U+0130, 304) into the two units \<open>i\<close> (105) and combining dot (U+0307,
  775), and turns the Kelvin sign (U+212A, 8490) into \<open>k\<close> (107). These are all the
  units whose lower-casing changes the length or yields a unit below 128. Every other
  unit above 255 is left as it is here; where JavaScript replaces such a unit (a Greek
  or Cyrillic capital, say, or the second half of a surrogate pair), it puts one unit
  above 127 in its place. \<open>lowered u vs\<close> says that \<open>vs\<close> may stand for the unit
  \<open>u\<close> in a lower-cased text in this wider sense, and the classification of a message
  is shown below to be the same for every such lower-casing.
\<close>

type_synonym ustring = "nat list"

definition js :: "string \<Rightarrow> ustring" where
  "js s = map of_char s"

definition lower_unit :: "nat \<Rightarrow> nat list" where
  "lower_unit u =
     (if (65 \<le> u \<and> u \<le> 90) \<or> (192 \<le> u \<and> u \<le> 222 \<and> u \<noteq> 215) then [u + 32]
      else if u = 304 then [105, 775]
      else if u = 8490 then [107]
      else [u])"

definition toLowerCase_units :: "ustring \<Rightarrow> ustring" where
  "toLowerCase_units s = concat (map lower_unit s)"

definition lowered :: "nat \<Rightarrow> nat list \<Rightarrow> bool" where
  "lowered u vs =
     (if u < 256 \<or> u = 304 \<or> u = 8490 then vs = lower_unit u
      else (case vs of [v] \<Rightarrow> 127 < v | _ \<Rightarrow> False))"

text \<open>No keyword has a unit above 127, so for the search of a keyword all units above
  127 are alike.\<close>

definition mask :: "nat \<Rightarrow> nat" where
  "mask u = (if 127 < u then 128 else u)"

text \<open>A value is falsy in a condition such as \<^verbatim>\<open>!command\<close> when it is missing or the
  empty string.\<close>

definition falsy :: "'a list option \<Rightarrow> bool" where
  "falsy v = (case v of None \<Rightarrow> True | Some s \<Rightarrow> s = [])"


section \<open>The terminal runner (server/terminal-runner.ts)\<close>

subsection \<open>The safety filter\<close>

definition dangerousCommands :: "string list" where
  "dangerousCommands =
     [''rm -rf'', ''rmdir'', ''del'', ''format'', ''shutdown'', ''reboot'', ''halt'',
      ''kill'', ''killall'', ''dd if='', ''mkfs'', ''fdisk'', '':(){ :|:& };:'',
      ''sudo'', ''su'', ''chmod 777'', ''chown'', ''passwd'', ''useradd'', ''userdel'']"

definition isCommandSafe :: "string \<Rightarrow> bool" where
  "isCommandSafe command =
     (let lowerCommand = toLowerCase command
      in \<not> list_ex (\<lambda>dangerous. str_includes lowerCommand dangerous) dangerousCommands)"

subsection \<open>Sessions and child processes\<close>

text \<open>
  A \<^verbatim>\<open>TerminalSession\<close> is an object that the close and error handlers of its
  process keep mutating after the runner has dropped it from its map, so session
  objects live in a store and the map holds their addresses. A child process is known
  by its index in the table of all processes spawned so far. For each child the table
  records what it was spawned with, whether \<^verbatim>\<open>kill('SIGTERM')\<close> has been delivered
  to it, and whether its \<^verbatim>\<open>close\<close> event has been emitted (a child emits it once).
\<close>

type_synonym addr = nat

record child =
  program :: string
  args :: "string list"
  child_cwd :: string
  signalled :: bool
  closed :: bool

record TerminalSession =
  id_s :: string
  process :: nat
  cwd :: string
  output_s :: "string list"
  isActive :: bool

datatype stream_kind = Stdout | Stderr

text \<open>The caller's callbacks are not run; every call is logged, tagged with the address
  of the session whose \<^verbatim>\<open>runCommand\<close> call received them.\<close>

datatype callback = OnData addr string stream_kind | OnClose addr int

record TerminalRunner =
  sessions :: "(string \<times> addr) list"
  objects :: "TerminalSession list"
  procs :: "child list"
  calls :: "callback list"

definition new_runner :: TerminalRunner where
  "new_runner = \<lparr>sessions = [], objects = [], procs = [], calls = []\<rparr>"

text \<open>\<^verbatim>\<open>killSession\<close>. The flag \<open>throws\<close> says whether \<^verbatim>\<open>process.kill\<close> raises;
  the \<^verbatim>\<open>catch\<close> branch then returns false and leaves the session registered and
  active.\<close>

definition killSession :: "string \<Rightarrow> bool \<Rightarrow> TerminalRunner \<Rightarrow> bool \<times> TerminalRunner" where
  "killSession sessionId throws st =
     (case map_of (sessions st) sessionId of
        None \<Rightarrow> (False, st)
      | Some a \<Rightarrow>
          (let session = objects st ! a in
           if isActive session then
             (if throws then (False, st)
              else (True,
                    st\<lparr>procs := (procs st)[process session :=
                                   (procs st ! process session)\<lparr>signalled := True\<rparr>],
                       objects := (objects st)[a := session\<lparr>isActive := False\<rparr>],
                       sessions := AList.delete sessionId (sessions st)\<rparr>))
           else (False, st)))"

text \<open>
  \<^verbatim>\<open>spawn\<close> raises at once, before any child exists, when the program name
  \<^verbatim>\<open>parts[0]\<close> is empty (the command is empty or starts with a space) or the command
  holds a NUL character; it can also raise for a reason that the command does not decide
  (a NUL character in the directory, an error of the operating system that is not
  reported by an \<^verbatim>\<open>error\<close> event), which is the input \<open>os_error\<close>.
\<close>

definition spawn_raises :: "string \<Rightarrow> bool \<Rightarrow> bool" where
  "spawn_raises command os_error =
     (hd (split_str command CHR '' '') = [] \<or> CHR 0x00 \<in> set command \<or> os_error)"

text \<open>\<^verbatim>\<open>runCommand\<close>: kill what runs under the id, spawn, register. It returns the new
  session (its address). When \<^verbatim>\<open>spawn\<close> raises, the call raises (no session is
  returned) after the kill has been done, and nothing is spawned or registered.\<close>

definition runCommand ::
  "string \<Rightarrow> string \<Rightarrow> string \<Rightarrow> bool \<Rightarrow> bool \<Rightarrow> TerminalRunner
     \<Rightarrow> addr option \<times> TerminalRunner" where
  "runCommand sessionId command dir throws os_error st =
     (let st1 = snd (killSession sessionId throws st);
          parts = split_str command CHR '' ''
      in if spawn_raises command os_error then (None, st1)
         else
           (let proc = length (procs st1);
                a = length (objects st1);
                session = \<lparr>id_s = sessionId, process = proc, cwd = dir, output_s = [],
                           isActive = True\<rparr>
            in (Some a,
                st1\<lparr>procs := procs st1 @
                        [\<lparr>program = hd parts, args = tl parts, child_cwd = dir,
                          signalled = False, closed = False\<rparr>],
                    objects := objects st1 @ [session],
                    sessions := AList.update sessionId a (sessions st1)\<rparr>)))"




subsection \<open>Child processes of the environment\<close>







subsection \<open>Well-formed runner states\<close>


subsection \<open>Running a command to completion\<close>

text \<open>
  A promise either settles some milliseconds after the call, resolved or rejected, or
  never settles. How a child spawned by \<^verbatim>\<open>exec\<close> behaves when nobody interferes is
  an input: it ends after some time with its output and, when its exit code is not 0
  or a signal ended it, an error; or it runs forever.
\<close>

datatype 'a outcome = Resolved 'a | Rejected string

datatype 'a promise = Settles nat "'a outcome" | Never_settles

datatype exec_error = ExitCode nat | BySignal

datatype child_run = Exits nat string string "exec_error option" | Runs_forever

record exec_result =
  stdout :: string
  stderr :: string
  code :: nat

text \<open>\<^verbatim>\<open>error ? error.code || 1 : 0\<close>\<close>

definition result_code :: "exec_error option \<Rightarrow> nat" where
  "result_code error =
     (case error of
        None \<Rightarrow> 0
      | Some (ExitCode c) \<Rightarrow> (if c = 0 then 1 else c)
      | Some BySignal \<Rightarrow> 1)"

text \<open>\<^verbatim>\<open>runCommandAsync\<close> resolves in the callback of \<^verbatim>\<open>exec\<close> and nowhere else:
  it sets no timer and passes no \<^verbatim>\<open>timeout\<close> option.\<close>

definition runCommandAsync ::
  "string \<Rightarrow> string \<Rightarrow> child_run \<Rightarrow> TerminalRunner \<Rightarrow> exec_result promise \<times> TerminalRunner" where
  "runCommandAsync command dir run st =
     (let st' = st\<lparr>procs := procs st @
                   [\<lparr>program = command, args = [], child_cwd = dir,
                     signalled = False, closed = False\<rparr>]\<rparr>
      in (case run of
            Exits t stdoutData stderrData error \<Rightarrow>
              (Settles t (Resolved \<lparr>stdout = stdoutData, stderr = stderrData,
                                    code = result_code error\<rparr>), st')
          | Runs_forever \<Rightarrow> (Never_settles, st')))"


section \<open>The terminal routes (server/terminal-routes.ts)\<close>

record request_body =
  body_command :: "string option"
  body_path :: "string option"
  body_sessionId :: "string option"

datatype response =
    Status nat string
  | EventStream string
  | StreamFailed string
  | ExecJson string string string string nat

text \<open>\<^verbatim>\<open>POST /terminal/run\<close>. \<open>fresh\<close> is what \<^verbatim>\<open>nanoid()\<close> returns. The head of
  the event stream and its start event are written before \<^verbatim>\<open>runCommand\<close> is called;
  when that call raises, the handler is left with the stream begun and no session.\<close>

definition terminal_run ::
  "request_body \<Rightarrow> string \<Rightarrow> bool \<Rightarrow> bool \<Rightarrow> TerminalRunner \<Rightarrow> response \<times> TerminalRunner" where
  "terminal_run body fresh throws os_error st =
     (if falsy (body_command body) \<or> falsy (body_path body)
      then (Status 400 ''Command and path are required'', st)
      else if \<not> isCommandSafe (the (body_command body))
      then (Status 400 ''Command not allowed for security reasons'', st)
      else (let ident = (if falsy (body_sessionId body) then fresh else the (body_sessionId body))
            in (case runCommand ident (the (body_command body)) (the (body_path body))
                       throws os_error st of
                  (Some session, st') \<Rightarrow> (EventStream ident, st')
                | (None, st') \<Rightarrow> (StreamFailed ident, st'))))"

text \<open>\<^verbatim>\<open>POST /terminal/exec\<close>. The client gets an answer when the promise settles.\<close>

definition terminal_exec ::
  "request_body \<Rightarrow> child_run \<Rightarrow> TerminalRunner \<Rightarrow> response promise \<times> TerminalRunner" where
  "terminal_exec body run st =
     (if falsy (body_command body) \<or> falsy (body_path body)
      then (Settles 0 (Resolved (Status 400 ''Command and path are required'')), st)
      else if \<not> isCommandSafe (the (body_command body))
      then (Settles 0 (Resolved (Status 400 ''Command not allowed for security reasons'')), st)
      else (case runCommandAsync (the (body_command body)) (the (body_path body)) run st of
              (Settles t (Resolved result), st') \<Rightarrow>
                (Settles t (Resolved (ExecJson (the (body_command body)) (the (body_path body))
                                        (stdout result) (stderr result) (code result))), st')
            | (Settles t (Rejected message), st') \<Rightarrow>
                (Settles t (Resolved (Status 500 message)), st')
            | (Never_settles, st') \<Rightarrow> (Never_settles, st')))"


section \<open>The preview servers (server/comprehensive-ai-service.ts)\<close>

record langConfig =
  ext :: string
  buildCmd :: "string option"
  runCmd :: "string option"
  port :: bool

definition languageConfigs :: "(string \<times> langConfig) list" where
  "languageConfigs =
     [(''html'', \<lparr>ext = ''.html'', buildCmd = None, runCmd = Some ''serve'', port = True\<rparr>),
      (''css'', \<lparr>ext = ''.css'', buildCmd = None, runCmd = None, port = False\<rparr>),
      (''javascript'', \<lparr>ext = ''.js'', buildCmd = Some ''npm run build'', runCmd = Some ''npm run dev'', port = True\<rparr>),
      (''typescript'', \<lparr>ext = ''.ts'', buildCmd = Some ''npm run build'', runCmd = Some ''npm run dev'', port = True\<rparr>),
      (''react'', \<lparr>ext = ''.tsx'', buildCmd = Some ''npm run build'', runCmd = Some ''npm run dev'', port = True\<rparr>),
      (''vue'', \<lparr>ext = ''.vue'', buildCmd = Some ''npm run build'', runCmd = Some ''npm run dev'', port = True\<rparr>),
      (''angular'', \<lparr>ext = ''.ts'', buildCmd = Some ''ng build'', runCmd = Some ''ng serve'', port = True\<rparr>),
      (''node'', \<lparr>ext = ''.js'', buildCmd = Some ''npm run build'', runCmd = Some ''npm start'', port = True\<rparr>),
      (''python'', \<lparr>ext = ''.py'', buildCmd = None, runCmd = Some ''python main.py'', port = True\<rparr>),
      (''java'', \<lparr>ext = ''.java'', buildCmd = Some ''mvn compile'', runCmd = Some ''mvn exec:java'', port = True\<rparr>),
      (''csharp'', \<lparr>ext = ''.cs'', buildCmd = Some ''dotnet build'', runCmd = Some ''dotnet run'', port = True\<rparr>),
      (''cpp'', \<lparr>ext = ''.cpp'', buildCmd = Some ''g++ -o main main.cpp'', runCmd = Some ''./main'', port = False\<rparr>),
      (''go'', \<lparr>ext = ''.go'', buildCmd = Some ''go build'', runCmd = Some ''go run main.go'', port = True\<rparr>),
      (''ruby'', \<lparr>ext = ''.rb'', buildCmd = None, runCmd = Some ''ruby main.rb'', port = True\<rparr>),
      (''php'', \<lparr>ext = ''.php'', buildCmd = None, runCmd = Some ''php -S localhost:8000'', port = True\<rparr>),
      (''rust'', \<lparr>ext = ''.rs'', buildCmd = Some ''cargo build'', runCmd = Some ''cargo run'', port = True\<rparr>),
      (''swift'', \<lparr>ext = ''.swift'', buildCmd = Some ''swift build'', runCmd = Some ''swift run'', port = False\<rparr>),
      (''kotlin'', \<lparr>ext = ''.kt'', buildCmd = Some ''kotlinc'', runCmd = Some ''kotlin'', port = False\<rparr>),
      (''dart'', \<lparr>ext = ''.dart'', buildCmd = Some ''flutter build'', runCmd = Some ''flutter run'', port = True\<rparr>),
      (''flutter'', \<lparr>ext = ''.dart'', buildCmd = Some ''flutter build web'', runCmd = Some ''flutter run -d web-server'', port = True\<rparr>),
      (''unity'', \<lparr>ext = ''.cs'', buildCmd = None, runCmd = None, port = False\<rparr>),
      (''unreal'', \<lparr>ext = ''.cpp'', buildCmd = None, runCmd = None, port = False\<rparr>),
      (''godot'', \<lparr>ext = ''.gd'', buildCmd = None, runCmd = None, port = False\<rparr>),
      (''r'', \<lparr>ext = ''.R'', buildCmd = None, runCmd = Some ''Rscript main.R'', port = False\<rparr>),
      (''sql'', \<lparr>ext = ''.sql'', buildCmd = None, runCmd = None, port = False\<rparr>),
      (''json'', \<lparr>ext = ''.json'', buildCmd = None, runCmd = None, port = False\<rparr>),
      (''yaml'', \<lparr>ext = ''.yaml'', buildCmd = None, runCmd = None, port = False\<rparr>),
      (''xml'', \<lparr>ext = ''.xml'', buildCmd = None, runCmd = None, port = False\<rparr>),
      (''markdown'', \<lparr>ext = ''.md'', buildCmd = None, runCmd = None, port = False\<rparr>),
      (''text'', \<lparr>ext = ''.txt'', buildCmd = None, runCmd = None, port = False\<rparr>)]"

text \<open>A \<^verbatim>\<open>PreviewServer\<close> is never changed once it is made, so the map holds the
  records themselves. The service keeps the table of the children it has spawned; a
  server's process handle is an index into it.\<close>

record PreviewServer =
  id_p :: string
  port_p :: nat
  process_p :: nat
  projectPath_p :: string
  language_p :: string

record ComprehensiveAIService =
  previewServers :: "(string \<times> PreviewServer) list"
  basePort :: nat
  children :: "child list"

definition new_service :: ComprehensiveAIService where
  "new_service = \<lparr>previewServers = [], basePort = 3001, children = []\<rparr>"

text \<open>\<^verbatim>\<open>!langConfig?.runCmd || !langConfig.port\<close>: the language is unknown, or it has
  no run command, or it needs no port.\<close>

definition not_previewable :: "string \<Rightarrow> bool" where
  "not_previewable lang =
     (case map_of languageConfigs lang of
        None \<Rightarrow> True
      | Some langConfig \<Rightarrow> falsy (runCmd langConfig) \<or> \<not> port langConfig)"

text \<open>\<^verbatim>\<open>startPreviewServer\<close>. The address is handed out by a timer three seconds after
  the child is spawned, whatever the child does; the delay is left out.\<close>

definition startPreviewServer ::
  "string \<Rightarrow> string \<Rightarrow> string \<Rightarrow> ComprehensiveAIService \<Rightarrow> string option \<times> ComprehensiveAIService" where
  "startPreviewServer projectId projectPath lang st =
     (if not_previewable lang then (None, st)
      else
        (let langConfig = the (map_of languageConfigs lang);
             port_number = basePort st + length (previewServers st);
             runCommand = replace_str (the (runCmd langConfig)) ''3000'' (toString_nat port_number);
             server = \<lparr>id_p = projectId, port_p = port_number, process_p = length (children st),
                       projectPath_p = projectPath, language_p = lang\<rparr>
         in (Some (''http://localhost:'' @ toString_nat port_number),
             st\<lparr>children := children st @
                    [\<lparr>program = ''bash'', args = [''-c'', runCommand], child_cwd = projectPath,
                      signalled = False, closed = False\<rparr>],
                previewServers := AList.update projectId server (previewServers st)\<rparr>)))"

definition stopPreviewServer :: "string \<Rightarrow> ComprehensiveAIService \<Rightarrow> ComprehensiveAIService" where
  "stopPreviewServer projectId st =
     (case map_of (previewServers st) projectId of
        None \<Rightarrow> st
      | Some server \<Rightarrow>
          st\<lparr>children := (children st)[process_p server :=
                             (children st ! process_p server)\<lparr>signalled := True\<rparr>],
             previewServers := AList.delete projectId (previewServers st)\<rparr>)"

text \<open>\<^verbatim>\<open>getActiveServers\<close>: id, port, url and language of every registered server.\<close>

definition getActiveServers ::
  "ComprehensiveAIService \<Rightarrow> (string \<times> nat \<times> string \<times> string) list" where
  "getActiveServers st =
     map (\<lambda>(k, server). (id_p server, port_p server,
                          ''http://localhost:'' @ toString_nat (port_p server), language_p server))
       (previewServers st)"

datatype preview_op = Launch string string string | Stop string

fun preview_step :: "preview_op \<Rightarrow> ComprehensiveAIService \<Rightarrow> ComprehensiveAIService" where
  "preview_step (Launch projectId projectPath lang) st = snd (startPreviewServer projectId projectPath lang st)"
| "preview_step (Stop projectId) st = stopPreviewServer projectId st"

fun preview_steps :: "preview_op list \<Rightarrow> ComprehensiveAIService \<Rightarrow> ComprehensiveAIService" where
  "preview_steps [] st = st"
| "preview_steps (e # es) st = preview_steps es (preview_step e st)"

text \<open>
  \<^verbatim>\<open>executeCommand\<close> runs a setup command with \<^verbatim>\<open>exec\<close> and, next to the callback,
  sets a timer of 60 seconds that kills the child and resolves. The result is how the
  promise settles and what the caller's output array holds at that moment. (The timer
  is never cleared and the callback of a child killed by the timer still runs; what
  they push later is left out.)
\<close>

definition executeCommand ::
  "string \<Rightarrow> string \<Rightarrow> string list \<Rightarrow> child_run \<Rightarrow> unit promise \<times> string list" where
  "executeCommand command dir out run =
     (let out0 = out @ [''$ '' @ command];
          timed_out = (Settles 60000 (Resolved ()), out0 @ [''Command timed out after 60 seconds''])
      in (case run of
            Runs_forever \<Rightarrow> timed_out
          | Exits t stdoutData stderrData error \<Rightarrow>
              (if t < 60000 then
                 (let out1 = (if stdoutData \<noteq> [] then out0 @ [stdoutData] else out0);
                      out2 = (if stderrData \<noteq> [] then out1 @ [stderrData] else out1);
                      message = ''Command failed: '' @ command @ [CHR 0x0A] @ stderrData
                  in (case error of
                        None \<Rightarrow> (Settles t (Resolved ()), out2)
                      | Some e \<Rightarrow> (Settles t (Rejected message), out2 @ [''Error: '' @ message])))
               else timed_out)))"


section \<open>The task loop (class EnhancedAILoop)\<close>

subsection \<open>Tasks, sessions and the collaborator\<close>

datatype task_type = chat | file_generation | preview_update

datatype priority = high | medium | low

datatype status = pending | processing | completed | failed

datatype role = user | assistant

text \<open>The \<^verbatim>\<open>data\<close> of a task is \<^verbatim>\<open>{ userId, message, session }\<close> for a chat or
  generation task and \<^verbatim>\<open>{ userId, projectId, previewUrl }\<close> for a preview task. The
  session is a reference to a session object.\<close>

datatype task_data = Request string ustring addr | Preview string string string

fun data_userId :: "task_data \<Rightarrow> string" where
  "data_userId (Request userId message session) = userId"
| "data_userId (Preview userId projectId previewUrl) = userId"

record LoopTask =
  id_t :: string
  type_t :: task_type
  data_t :: task_data
  retries :: nat
  maxRetries :: nat
  priority_t :: priority
  status_t :: status

record stored_file =
  content :: string
  language :: string

record ChatSession =
  userId_c :: string
  projectId_c :: "string option"
  conversationHistory :: "(role \<times> ustring) list"
  activeFiles :: "(string \<times> stored_file) list"
  isGenerating :: bool

text \<open>Tasks stay in the queue while they are processed and are changed in place, by
  their position. Session objects are shared between the map of active sessions and the
  tasks, so they live in a store.\<close>

record EnhancedAILoop =
  taskQueue :: "LoopTask list"
  activeSessions :: "(string \<times> addr) list"
  heap :: "ChatSession list"
  isRunning :: bool

definition new_loop :: EnhancedAILoop where
  "new_loop = \<lparr>taskQueue = [], activeSessions = [], heap = [], isRunning = True\<rparr>"

text \<open>What \<^verbatim>\<open>comprehensiveAI.generateProject\<close> answers is an input: the fields of its
  response that the loop reads, or an exception. The files are the entries of the
  \<^verbatim>\<open>files\<close> object in the order of \<^verbatim>\<open>Object.entries\<close>.\<close>

record generated_file =
  g_content :: string
  g_language :: string
  g_path :: string

record AIGenerationResponse =
  success :: bool
  message_r :: ustring
  files :: "(string \<times> generated_file) list option"
  previewUrl_r :: "string option"
  projectId_r :: "string option"
  error_r :: "string option"

datatype ai_call = Returns AIGenerationResponse | Throws string

definition retryDelays :: "nat list" where
  "retryDelays = [1000, 2000, 4000, 8000, 16000]"

definition appKeywords :: "string list" where
  "appKeywords =
     [''create'', ''build'', ''make'', ''generate'', ''develop'', ''app'', ''application'',
      ''website'', ''calculator'', ''todo'', ''game'', ''dashboard'', ''api'', ''server'',
      ''component'', ''react'', ''python'', ''javascript'', ''typescript'', ''html'']"

definition isAppGenerationRequest :: "ustring \<Rightarrow> bool" where
  "isAppGenerationRequest message =
     (let lowerMessage = toLowerCase_units message
      in list_ex (\<lambda>keyword. str_includes lowerMessage (js keyword)) appKeywords \<and>
         length lowerMessage > 10)"

fun getPriorityValue :: "priority \<Rightarrow> nat" where
  "getPriorityValue high = 1"
| "getPriorityValue medium = 2"
| "getPriorityValue low = 3"

definition addTask :: "LoopTask \<Rightarrow> EnhancedAILoop \<Rightarrow> EnhancedAILoop" where
  "addTask task st = st\<lparr>taskQueue := taskQueue st @ [task]\<rparr>"

text \<open>\<^verbatim>\<open>session.conversationHistory.push(turn)\<close>\<close>

definition push_turn :: "addr \<Rightarrow> role \<times> ustring \<Rightarrow> EnhancedAILoop \<Rightarrow> EnhancedAILoop" where
  "push_turn session turn st =
     st\<lparr>heap := (heap st)[session := (heap st ! session)
          \<lparr>conversationHistory := conversationHistory (heap st ! session) @ [turn]\<rparr>]\<rparr>"

text \<open>\<^verbatim>\<open>generateChatResponse\<close>; the prompt it builds only matters to the collaborator.
  Message texts are given without their pictographs.\<close>

definition generateChatResponse :: "ai_call \<Rightarrow> ustring" where
  "generateChatResponse answer =
     (case answer of
        Returns result \<Rightarrow>
          (if message_r result = [] then js ''I'm here to help! What would you like to build or discuss?''
           else message_r result)
      | Throws e \<Rightarrow> js ''I'm having a small issue, but I'm still here to help! What can I do for you?'')"

subsection \<open>Taking a message in\<close>

datatype chat_result = ChatResult bool string ustring bool

text \<open>\<^verbatim>\<open>handleChatMessage\<close>. \<open>now\<close> is the reading of the clock that goes into the
  task id. Nothing inside its \<^verbatim>\<open>try\<close> can raise, so its \<^verbatim>\<open>catch\<close> has no branch
  here.\<close>

definition handleChatMessage ::
  "string \<Rightarrow> ustring \<Rightarrow> nat \<Rightarrow> ai_call \<Rightarrow> EnhancedAILoop \<Rightarrow> chat_result \<times> EnhancedAILoop" where
  "handleChatMessage userId message now answer st =
     (let st1 = (case map_of (activeSessions st) userId of
                   Some a \<Rightarrow> st
                 | None \<Rightarrow>
                     st\<lparr>heap := heap st @
                           [\<lparr>userId_c = userId, projectId_c = None, conversationHistory = [],
                             activeFiles = [], isGenerating = False\<rparr>],
                        activeSessions := AList.update userId (length (heap st)) (activeSessions st)\<rparr>);
          session = the (map_of (activeSessions st1) userId);
          st2 = push_turn session (user, message) st1
      in if isAppGenerationRequest message then
           (ChatResult True ''app_generation''
              (js ''I'll create that application for you! Let me work on it...'') True,
            addTask \<lparr>id_t = ''app_'' @ toString_nat now @ ''_'' @ userId, type_t = file_generation,
                     data_t = Request userId message session, retries = 0, maxRetries = 3,
                     priority_t = high, status_t = pending\<rparr> st2)
         else
           (let st3 = addTask \<lparr>id_t = ''chat_'' @ toString_nat now @ ''_'' @ userId, type_t = chat,
                               data_t = Request userId message session, retries = 0,
                               maxRetries = 2, priority_t = medium, status_t = pending\<rparr> st2;
                response = generateChatResponse answer
            in (ChatResult True ''chat'' response False,
                push_turn session (assistant, response) st3)))"

text \<open>\<^verbatim>\<open>POST /api/enhanced-chat\<close>, the one caller of \<^verbatim>\<open>handleChatMessage\<close>: a request
  without a message or without a user id is answered with status 400 (no result).\<close>

definition enhanced_chat ::
  "ustring option \<Rightarrow> string option \<Rightarrow> nat \<Rightarrow> ai_call \<Rightarrow> EnhancedAILoop
     \<Rightarrow> chat_result option \<times> EnhancedAILoop" where
  "enhanced_chat message userId now answer st =
     (if falsy message \<or> falsy userId then (None, st)
      else (case handleChatMessage (the userId) (the message) now answer st of
              (r, st') \<Rightarrow> (Some r, st')))"

subsection \<open>Executing a task\<close>

text \<open>The loop over \<^verbatim>\<open>Object.entries(result.files)\<close> that stores every generated
  file under its name; \<^verbatim>\<open>Map.set\<close> overwrites an entry in place or appends one.\<close>

fun merge_files ::
  "(string \<times> stored_file) list \<Rightarrow> (string \<times> generated_file) list \<Rightarrow> (string \<times> stored_file) list" where
  "merge_files m [] = m"
| "merge_files m ((filename, fileData) # rest) =
     merge_files (AList.update filename
                    \<lparr>content = g_content fileData, language = g_language fileData\<rparr> m) rest"

fun join_str :: "string \<Rightarrow> string list \<Rightarrow> string" where
  "join_str sep [] = []"
| "join_str sep [x] = x"
| "join_str sep (x # y # ys) = x @ sep @ join_str sep (y # ys)"

definition generated_summary :: "string list \<Rightarrow> string option \<Rightarrow> ustring" where
  "generated_summary names url =
     js (''I've created your application with '' @ toString_nat (length names) @
         '' files! The project includes:'' @ [CHR 0x0A, CHR 0x0A] @
         join_str [CHR 0x0A] names @ [CHR 0x0A, CHR 0x0A] @
         (if falsy url then [] else ''Live preview: '' @ the url))"

text \<open>\<^verbatim>\<open>session.projectId = p\<close>\<close>

definition set_projectId :: "addr \<Rightarrow> string option \<Rightarrow> EnhancedAILoop \<Rightarrow> EnhancedAILoop" where
  "set_projectId session p st =
     st\<lparr>heap := (heap st)[session := (heap st ! session)\<lparr>projectId_c := p\<rparr>]\<rparr>"

text \<open>A handler returns the new state, or the error it raises. A task whose data has no
  session makes the two handlers that read it raise a type error.\<close>

definition executeFileGeneration ::
  "LoopTask \<Rightarrow> ai_call \<Rightarrow> nat \<Rightarrow> EnhancedAILoop \<Rightarrow> string + EnhancedAILoop" where
  "executeFileGeneration task answer now st =
     (case data_t task of
        Preview userId projectId previewUrl \<Rightarrow> Inl ''TypeError''
      | Request userId message session \<Rightarrow>
          (case answer of
             Throws e \<Rightarrow> Inl e
           | Returns result \<Rightarrow>
               (if success result \<and> files result \<noteq> None then
                  (let st1 = st\<lparr>heap := (heap st)[session := (heap st ! session)
                               \<lparr>activeFiles := merge_files (activeFiles (heap st ! session))
                                                  (the (files result))\<rparr>]\<rparr>;
                       st2 = (if \<not> falsy (projectId_r result) \<and> \<not> falsy (previewUrl_r result) then
                                addTask \<lparr>id_t = ''preview_'' @ toString_nat now @ ''_'' @ userId,
                                         type_t = preview_update,
                                         data_t = Preview userId (the (projectId_r result))
                                                    (the (previewUrl_r result)),
                                         retries = 0, maxRetries = 2, priority_t = high,
                                         status_t = pending\<rparr>
                                  (set_projectId session (projectId_r result) st1)
                              else st1);
                       response = generated_summary (map fst (the (files result))) (previewUrl_r result)
                   in Inr (push_turn session (assistant, response) st2))
                else Inl (if falsy (error_r result) then ''File generation failed''
                          else the (error_r result)))))"

definition executeChatTask :: "LoopTask \<Rightarrow> ai_call \<Rightarrow> EnhancedAILoop \<Rightarrow> string + EnhancedAILoop" where
  "executeChatTask task answer st =
     (case data_t task of
        Preview userId projectId previewUrl \<Rightarrow> Inl ''TypeError''
      | Request userId message session \<Rightarrow>
          Inr (push_turn session (assistant, generateChatResponse answer) st))"

definition executePreviewUpdate :: "LoopTask \<Rightarrow> EnhancedAILoop \<Rightarrow> string + EnhancedAILoop" where
  "executePreviewUpdate task st = Inr st"

definition executeTask ::
  "LoopTask \<Rightarrow> ai_call \<Rightarrow> nat \<Rightarrow> EnhancedAILoop \<Rightarrow> string + EnhancedAILoop" where
  "executeTask task answer now st =
     (case type_t task of
        file_generation \<Rightarrow> executeFileGeneration task answer now st
      | chat \<Rightarrow> executeChatTask task answer st
      | preview_update \<Rightarrow> executePreviewUpdate task st)"

subsection \<open>Failure, retry and the loop\<close>

definition failure_notice :: ustring where
  "failure_notice =
     js ''I encountered an issue with your request. Let me try a different approach...''"

text \<open>\<^verbatim>\<open>handleTaskError\<close> for the task at position \<open>i\<close>. It returns the delay it slept
  before re-queueing, if it re-queued. The counter has been incremented when the delay
  is looked up, so \<^verbatim>\<open>task.retries - 1\<close> is not negative.\<close>

definition handleTaskError :: "nat \<Rightarrow> EnhancedAILoop \<Rightarrow> nat option \<times> EnhancedAILoop" where
  "handleTaskError i st =
     (let task = (taskQueue st ! i)\<lparr>retries := retries (taskQueue st ! i) + 1\<rparr>
      in if retries task \<le> maxRetries task then
           (let delay = retryDelays ! (min (retries task - 1) (length retryDelays - 1))
            in (Some delay, st\<lparr>taskQueue := (taskQueue st)[i := task\<lparr>status_t := pending\<rparr>]\<rparr>))
         else
           (let st1 = st\<lparr>taskQueue := (taskQueue st)[i := task\<lparr>status_t := failed\<rparr>]\<rparr>
            in (None,
                if data_userId (data_t task) \<noteq> [] then
                  (case map_of (activeSessions st1) (data_userId (data_t task)) of
                     Some session \<Rightarrow> push_turn session (assistant, failure_notice) st1
                   | None \<Rightarrow> st1)
                else st1)))"

text \<open>\<^verbatim>\<open>task.status = s\<close> for the task at position \<open>i\<close>.\<close>

definition set_status :: "nat \<Rightarrow> status \<Rightarrow> EnhancedAILoop \<Rightarrow> EnhancedAILoop" where
  "set_status i s st = st\<lparr>taskQueue := (taskQueue st)[i := (taskQueue st ! i)\<lparr>status_t := s\<rparr>]\<rparr>"

text \<open>The body of the loop in \<^verbatim>\<open>processPendingTasks\<close>, for the task at position \<open>i\<close>.\<close>

definition process_task :: "nat \<Rightarrow> ai_call \<Rightarrow> nat \<Rightarrow> EnhancedAILoop \<Rightarrow> EnhancedAILoop" where
  "process_task i answer now st =
     (let st1 = set_status i processing st
      in (case executeTask (taskQueue st1 ! i) answer now st1 of
            Inr st2 \<Rightarrow> set_status i completed st2
          | Inl e \<Rightarrow> snd (handleTaskError i st1)))"

text \<open>\<^verbatim>\<open>processPendingTasks\<close>: the pending tasks, sorted by priority (the sort is
  stable), the first three of them processed one after the other. \<open>answers i\<close> is what
  the collaborator answers while the task at position \<open>i\<close> is executed.\<close>

definition pendingTasks :: "EnhancedAILoop \<Rightarrow> nat list" where
  "pendingTasks st =
     sort_key (\<lambda>i. getPriorityValue (priority_t (taskQueue st ! i)))
       (filter (\<lambda>i. status_t (taskQueue st ! i) = pending) [0..<length (taskQueue st)])"

definition processPendingTasks :: "(nat \<Rightarrow> ai_call) \<Rightarrow> nat \<Rightarrow> EnhancedAILoop \<Rightarrow> EnhancedAILoop" where
  "processPendingTasks answers now st =
     fold (\<lambda>i. process_task i (answers i) now) (take 3 (pendingTasks st)) st"

text \<open>\<^verbatim>\<open>maintainActiveSessions\<close> reads the clock once (\<open>now\<close>) and once more for every
  session with a history, \<open>elapsed userId\<close> milliseconds later.\<close>

definition maintainActiveSessions :: "nat \<Rightarrow> (string \<Rightarrow> nat) \<Rightarrow> EnhancedAILoop \<Rightarrow> EnhancedAILoop" where
  "maintainActiveSessions now elapsed st =
     st\<lparr>activeSessions :=
          filter (\<lambda>(userId, session).
                    \<not> (let lastActivity = (if conversationHistory (heap st ! session) \<noteq> []
                                            then now + elapsed userId else 0)
                       in int now - int lastActivity > 3600000))
            (activeSessions st)\<rparr>"

definition cleanupCompletedTasks :: "EnhancedAILoop \<Rightarrow> EnhancedAILoop" where
  "cleanupCompletedTasks st =
     (let completedCount = length (filter (\<lambda>task. status_t task = completed) (taskQueue st))
      in if completedCount > 100
         then st\<lparr>taskQueue := filter (\<lambda>task. status_t task \<noteq> completed) (taskQueue st)\<rparr>
         else st)"

text \<open>One round of \<^verbatim>\<open>startContinuousLoop\<close>.\<close>

definition tick :: "(nat \<Rightarrow> ai_call) \<Rightarrow> nat \<Rightarrow> (string \<Rightarrow> nat) \<Rightarrow> EnhancedAILoop \<Rightarrow> EnhancedAILoop" where
  "tick answers now elapsed st =
     cleanupCompletedTasks (maintainActiveSessions now elapsed (processPendingTasks answers now st))"

text \<open>What happens to the loop: a request comes in, or the loop makes a round. Each is
  taken as a whole; where the code waits (for the collaborator, for the retry delay)
  the task in hand is \<open>processing\<close> and no other code changes a task or removes a
  session.\<close>

datatype loop_event =
    Post "ustring option" "string option" nat ai_call
  | Tick "nat \<Rightarrow> ai_call" nat "string \<Rightarrow> nat"

fun loop_step :: "loop_event \<Rightarrow> EnhancedAILoop \<Rightarrow> EnhancedAILoop" where
  "loop_step (Post message userId now answer) st = snd (enhanced_chat message userId now answer st)"
| "loop_step (Tick answers now elapsed) st = tick answers now elapsed st"

fun loop_steps :: "loop_event list \<Rightarrow> EnhancedAILoop \<Rightarrow> EnhancedAILoop" where
  "loop_steps [] st = st"
| "loop_steps (e # es) st = loop_steps es (loop_step e st)"

subsection \<open>Well-formed states of the loop\<close>

text \<open>
  What every state of the loop satisfies: a registered session exists in the store and
  has a turn in its history (it was registered while its first message was taken in);
  every task has a user id, this user's session is registered, a chat or generation
  task refers to exactly that session, and the counter of a task is within its limit
  unless the task has failed, in which case it is one above.
\<close>

definition sessions_ok :: "EnhancedAILoop \<Rightarrow> bool" where
  "sessions_ok st \<longleftrightarrow>
     (\<forall>(u, a)\<in>set (activeSessions st).
        a < length (heap st) \<and> conversationHistory (heap st ! a) \<noteq> [])"

definition task_ok :: "(string \<times> addr) list \<Rightarrow> LoopTask \<Rightarrow> bool" where
  "task_ok reg t \<longleftrightarrow>
     data_userId (data_t t) \<noteq> [] \<and>
     map_of reg (data_userId (data_t t)) \<noteq> None \<and>
     (\<forall>u m s. data_t t = Request u m s \<longrightarrow> map_of reg u = Some s) \<and>
     (status_t t \<noteq> failed \<longrightarrow> retries t \<le> maxRetries t) \<and>
     (status_t t = failed \<longrightarrow> retries t = maxRetries t + 1)"

definition loop_inv :: "EnhancedAILoop \<Rightarrow> bool" where
  "loop_inv st \<longleftrightarrow> sessions_ok st \<and> (\<forall>t\<in>set (taskQueue st). task_ok (activeSessions st) t)"

text \<open>A step that keeps the map of sessions and the size of the store and only lets
  histories grow.\<close>

definition grows :: "EnhancedAILoop \<Rightarrow> EnhancedAILoop \<Rightarrow> bool" where
  "grows st st' \<longleftrightarrow>
     activeSessions st' = activeSessions st \<and>
     length (heap st') = length (heap st) \<and>
     (\<forall>a. conversationHistory (heap st ! a) \<noteq> [] \<longrightarrow> conversationHistory (heap st' ! a) \<noteq> [])"

text \<open>What a handler that returns has done: only histories have grown, and at most new
  preview tasks of the same user have been queued.\<close>

definition queued_more :: "LoopTask \<Rightarrow> EnhancedAILoop \<Rightarrow> EnhancedAILoop \<Rightarrow> bool" where
  "queued_more t st st' \<longleftrightarrow>
     (\<exists>new. taskQueue st' = taskQueue st @ new \<and>
        (\<forall>n\<in>set new. status_t n = pending \<and> retries n = 0 \<and>
           data_userId (data_t n) = data_userId (data_t t) \<and>
           (\<forall>u m s. data_t n \<noteq> Request u m s)))"

text \<open>What processing does to the task itself: it is completed, or its counter goes up
  by one and it is pending again or failed, according to the limit.\<close>

definition task_after :: "LoopTask \<Rightarrow> LoopTask \<Rightarrow> bool" where
  "task_after t t' \<longleftrightarrow>
     data_t t' = data_t t \<and> maxRetries t' = maxRetries t \<and>
     ((status_t t' = completed \<and> retries t' = retries t) \<or>
      (retries t' = retries t + 1 \<and>
       (if retries t' \<le> maxRetries t' then status_t t' = pending else status_t t' = failed)))"

text \<open>A state for a run of the loop: user \<open>u1\<close> has asked once for an application, the
  generation task has failed \<open>k\<close> times.\<close>

definition demo_state :: "nat \<Rightarrow> status \<Rightarrow> (role \<times> ustring) list \<Rightarrow> EnhancedAILoop" where
  "demo_state k s h =
     \<lparr>taskQueue = [\<lparr>id_t = ''app_7_u1'', type_t = file_generation,
                     data_t = Request ''u1'' (js ''build me a todo app'') 0, retries = k,
                     maxRetries = 3, priority_t = high, status_t = s\<rparr>],
      activeSessions = [(''u1'', 0)],
      heap = [\<lparr>userId_c = ''u1'', projectId_c = None,
               conversationHistory = (user, js ''build me a todo app'') # h,
               activeFiles = [], isGenerating = False\<rparr>],
      isRunning = True\<rparr>"


section \<open>Verified properties\<close>

subsection \<open>Substring tests\<close>

lemma startsWith_iff: "startsWith s k \<longleftrightarrow> (\<exists>ys. s = k @ ys)"
  by (induction s k rule: startsWith.induct) auto

lemma str_includes_iff: "str_includes s k \<longleftrightarrow> (\<exists>xs ys. s = xs @ k @ ys)"
proof (induction s)
  case Nil
  show ?case by auto
next
  case (Cons c cs)
  show ?case
  proof
    assume "str_includes (c # cs) k"
    then consider "startsWith (c # cs) k" | "str_includes cs k" by auto
    then show "\<exists>xs ys. c # cs = xs @ k @ ys"
    proof cases
      case 1
      then obtain ys where "c # cs = k @ ys" using startsWith_iff by blast
      then have "c # cs = [] @ k @ ys" by simp
      then show ?thesis by blast
    next
      case 2
      then obtain xs ys where "cs = xs @ k @ ys" using Cons.IH by blast
      then have "c # cs = (c # xs) @ k @ ys" by simp
      then show ?thesis by blast
    qed
  next
    assume "\<exists>xs ys. c # cs = xs @ k @ ys"
    then obtain xs ys where e: "c # cs = xs @ k @ ys" by blast
    show "str_includes (c # cs) k"
    proof (cases xs)
      case Nil
      with e have "startsWith (c # cs) k" using startsWith_iff by auto
      then show ?thesis by simp
    next
      case (Cons x xs')
      with e have "cs = xs' @ k @ ys" by simp
      then have "str_includes cs k" using Cons.IH by blast
      then show ?thesis by simp
    qed
  qed
qed

lemma length_toLowerCase: "length (toLowerCase s) = length s"
  by (simp add: toLowerCase_def)

subsection \<open>The safety filter and the routes\<close>

lemma unsafe_iff:
  "\<not> isCommandSafe command \<longleftrightarrow>
     (\<exists>d\<in>set dangerousCommands. \<exists>xs ys. toLowerCase command = xs @ d @ ys)"
  by (simp add: isCommandSafe_def list_ex_iff str_includes_iff)

lemma rm_rf_unsafe: "\<not> isCommandSafe ''rm -rf /''"
  by code_simp

lemma unsafe_run_rejected:
  assumes "\<not> isCommandSafe command"
  shows "terminal_run \<lparr>body_command = Some command, body_path = path, body_sessionId = sid\<rparr>
           fresh throws os_error st
         = (Status 400 (if command = [] \<or> falsy path then ''Command and path are required''
                        else ''Command not allowed for security reasons''), st)"
  using assms by (simp add: terminal_run_def falsy_def)

lemma unsafe_exec_rejected:
  assumes "\<not> isCommandSafe command"
  shows "terminal_exec \<lparr>body_command = Some command, body_path = path, body_sessionId = sid\<rparr>
           run st
         = (Settles 0 (Resolved (Status 400
              (if command = [] \<or> falsy path then ''Command and path are required''
               else ''Command not allowed for security reasons''))), st)"
  using assms by (simp add: terminal_exec_def falsy_def)

text \<open>
  C8. The command \<^verbatim>\<open>rm -rf /\<close> is not safe, and \<^verbatim>\<open>POST /terminal/run\<close> answers it
  with status 400 whatever the path, the session id, the id generator, the behaviour of
  \<^verbatim>\<open>kill\<close> and \<^verbatim>\<open>spawn\<close> and the state of the runner are; the runner's state comes back as it was, so no child has been spawned
  and no session has been touched. (With a missing or empty path the request is already
  turned down by the check for required fields, one line earlier.)
\<close>

theorem rm_rf_rejected_before_spawn:
  "\<not> isCommandSafe ''rm -rf /'' \<and>
   fst (terminal_run \<lparr>body_command = Some ''rm -rf /'', body_path = path, body_sessionId = sid\<rparr>
          fresh throws os_error st)
     = Status 400 (if falsy path then ''Command and path are required''
                   else ''Command not allowed for security reasons'') \<and>
   snd (terminal_run \<lparr>body_command = Some ''rm -rf /'', body_path = path, body_sessionId = sid\<rparr>
          fresh throws os_error st) = st \<and>
   procs (snd (terminal_run \<lparr>body_command = Some ''rm -rf /'', body_path = path,
                              body_sessionId = sid\<rparr> fresh throws os_error st)) = procs st"
  using rm_rf_unsafe unsafe_run_rejected [OF rm_rf_unsafe, of path sid fresh throws os_error st]
  by simp

text \<open>
  C10. The filter is a substring test on the lower-cased command, with no word
  boundaries: a command is unsafe exactly when some entry of the deny-list occurs
  somewhere in its lower-cased text. Every such command is answered with status 400 by
  both routes, with the runner's state (and so the table of children) unchanged. The
  harmless commands \<^verbatim>\<open>npm install suspense\<close>, \<^verbatim>\<open>echo result\<close> and \<^verbatim>\<open>skill list\<close>
  are all refused.
\<close>

theorem deny_list_is_substring_test:
  "(\<forall>command. \<not> isCommandSafe command \<longleftrightarrow>
       (\<exists>d\<in>set dangerousCommands. \<exists>xs ys. toLowerCase command = xs @ d @ ys)) \<and>
   (\<forall>command path sid fresh throws os_error run st.
       (\<exists>d\<in>set dangerousCommands. \<exists>xs ys. toLowerCase command = xs @ d @ ys) \<longrightarrow>
       (\<exists>msg. terminal_run \<lparr>body_command = Some command, body_path = path,
                             body_sessionId = sid\<rparr> fresh throws os_error st
                = (Status 400 msg, st)) \<and>
       (\<exists>msg. terminal_exec \<lparr>body_command = Some command, body_path = path,
                              body_sessionId = sid\<rparr> run st
                = (Settles 0 (Resolved (Status 400 msg)), st))) \<and>
   \<not> isCommandSafe ''npm install suspense'' \<and>
   \<not> isCommandSafe ''echo result'' \<and>
   \<not> isCommandSafe ''skill list''"
proof -
  have a: "\<not> isCommandSafe ''npm install suspense''" by code_simp
  have b: "\<not> isCommandSafe ''echo result''" by code_simp
  have c: "\<not> isCommandSafe ''skill list''" by code_simp
  have routes: "(\<exists>msg. terminal_run \<lparr>body_command = Some command, body_path = path,
                             body_sessionId = sid\<rparr> fresh throws os_error st
                = (Status 400 msg, st)) \<and>
       (\<exists>msg. terminal_exec \<lparr>body_command = Some command, body_path = path,
                              body_sessionId = sid\<rparr> run st
                = (Settles 0 (Resolved (Status 400 msg)), st))"
    if "\<exists>d\<in>set dangerousCommands. \<exists>xs ys. toLowerCase command = xs @ d @ ys"
    for command path sid fresh throws os_error run st
  proof -
    from that have u: "\<not> isCommandSafe command" using unsafe_iff by blast
    show ?thesis
      using unsafe_run_rejected [OF u] unsafe_exec_rejected [OF u] by blast
  qed
  show ?thesis using unsafe_iff a b c routes by blast
qed

theorem deny_list_is_substring_test_witness:
  "(\<exists>d\<in>set dangerousCommands. \<exists>xs ys. toLowerCase ''echo result'' = xs @ d @ ys) \<and>
   (\<exists>msg. terminal_run \<lparr>body_command = Some ''echo result'', body_path = Some ''/tmp'',
                         body_sessionId = None\<rparr> ''n1'' False False new_runner
            = (Status 400 msg, new_runner)) \<and>
   (\<exists>msg. terminal_exec \<lparr>body_command = Some ''echo result'', body_path = Some ''/tmp'',
                          body_sessionId = None\<rparr> Runs_forever new_runner
            = (Settles 0 (Resolved (Status 400 msg)), new_runner))"
proof -
  have "toLowerCase ''echo result'' = ''echo re'' @ ''su'' @ ''lt''" by code_simp
  moreover have "''su'' \<in> set dangerousCommands" by (simp add: dangerousCommands_def)
  ultimately have h: "\<exists>d\<in>set dangerousCommands. \<exists>xs ys. toLowerCase ''echo result'' = xs @ d @ ys"
    by blast
  from deny_list_is_substring_test h show ?thesis by blast
qed

subsection \<open>Command sessions\<close>









lemma nth_update_field:
  assumes "f (g (xs ! a)) = f (xs ! a)"
  shows "f (xs[a := g (xs ! a)] ! b) = f (xs ! b)"
proof (cases "a < length xs")
  case True
  then show ?thesis using assms by (cases "a = b") (simp_all add: nth_list_update)
next
  case False
  then show ?thesis by (simp add: list_update_beyond)
qed



lemma kill_process:
  "process (objects (snd (killSession sid t st)) ! b) = process (objects st ! b)"
  by (simp add: killSession_def Let_def nth_update_field split: option.splits)


















subsection \<open>Running a command to completion\<close>

text \<open>
  C5. \<^verbatim>\<open>runCommandAsync\<close>, the operation that resolves with the output and the exit
  code, has no ceiling: it settles when the child ends, at that time, and never if the
  child never ends. \<^verbatim>\<open>POST /terminal/exec\<close> then never answers; the command
  \<^verbatim>\<open>sleep infinity\<close> passes the safety filter and does just that. The ceiling of 60
  seconds is in \<^verbatim>\<open>executeCommand\<close> of the generation service only, which resolves
  without a value.
\<close>

theorem runCommandAsync_has_no_ceiling:
  "fst (runCommandAsync command dir Runs_forever st) = Never_settles \<and>
   fst (runCommandAsync command dir (Exits t out err e) st)
     = Settles t (Resolved \<lparr>stdout = out, stderr = err, code = result_code e\<rparr>) \<and>
   fst (executeCommand command dir lines Runs_forever) = Settles 60000 (Resolved ()) \<and>
   isCommandSafe ''sleep infinity'' \<and>
   fst (terminal_exec \<lparr>body_command = Some ''sleep infinity'', body_path = Some ''/tmp'',
                        body_sessionId = None\<rparr> Runs_forever new_runner) = Never_settles"
proof -
  have safe: "isCommandSafe ''sleep infinity''" by code_simp
  have "fst (terminal_exec \<lparr>body_command = Some ''sleep infinity'', body_path = Some ''/tmp'',
                        body_sessionId = None\<rparr> Runs_forever new_runner) = Never_settles"
    using safe by (simp add: terminal_exec_def falsy_def runCommandAsync_def)
  then show ?thesis
    using safe by (simp add: runCommandAsync_def executeCommand_def Let_def)
qed

subsection \<open>Preview servers\<close>

lemma toString_nat_ports:
  "toString_nat 3001 = ''3001''" "toString_nat 3002 = ''3002''"
  by (simp_all add: toString_nat.simps [of 3001] toString_nat.simps [of 3002]
        toString_nat.simps [of 300] toString_nat.simps [of 30] toString_nat.simps [of 3]
        digit_char_def)

lemma react_config:
  "map_of languageConfigs ''react''
     = Some \<lparr>ext = ''.tsx'', buildCmd = Some ''npm run build'', runCmd = Some ''npm run dev'', port = True\<rparr>"
  by (simp add: languageConfigs_def)

lemma html_config:
  "map_of languageConfigs ''html''
     = Some \<lparr>ext = ''.html'', buildCmd = None, runCmd = Some ''serve'', port = True\<rparr>"
  by (simp add: languageConfigs_def)

lemma css_config:
  "map_of languageConfigs ''css''
     = Some \<lparr>ext = ''.css'', buildCmd = None, runCmd = None, port = False\<rparr>"
  by (simp add: languageConfigs_def)

lemma start_react:
  "startPreviewServer projectId projectPath ''react'' st =
     (Some (''http://localhost:'' @ toString_nat (basePort st + length (previewServers st))),
      st\<lparr>children := children st @
             [\<lparr>program = ''bash'', args = [''-c'', ''npm run dev''], child_cwd = projectPath,
               signalled = False, closed = False\<rparr>],
         previewServers := AList.update projectId
            \<lparr>id_p = projectId, port_p = basePort st + length (previewServers st),
             process_p = length (children st), projectPath_p = projectPath, language_p = ''react''\<rparr>
            (previewServers st)\<rparr>)"
  by (simp add: startPreviewServer_def not_previewable_def react_config falsy_def Let_def)

lemma start_not_previewable:
  "not_previewable lang \<Longrightarrow> startPreviewServer projectId projectPath lang st = (None, st)"
  by (simp add: startPreviewServer_def)

lemma start_previewable:
  "\<not> not_previewable lang \<Longrightarrow> fst (startPreviewServer projectId projectPath lang st) \<noteq> None"
  by (simp add: startPreviewServer_def Let_def)

text \<open>
  C1. The port of a launch is the base port plus the number of registered servers, and
  that number goes down when a server is stopped. Launch \<open>p1\<close> and \<open>p2\<close>, stop \<open>p1\<close>,
  launch \<open>p3\<close>: the servers \<open>p2\<close> and \<open>p3\<close> are both registered with port 3002, and
  neither child has been killed.
\<close>

theorem port_reused_after_stop:
  "map (\<lambda>(i, p, u, l). (i, p))
     (getActiveServers (preview_steps
        [Launch ''p1'' ''/w/p1'' ''react'', Launch ''p2'' ''/w/p2'' ''react'', Stop ''p1'',
         Launch ''p3'' ''/w/p3'' ''react''] new_service))
     = [(''p2'', 3002), (''p3'', 3002)] \<and>
   map signalled (children (preview_steps
        [Launch ''p1'' ''/w/p1'' ''react'', Launch ''p2'' ''/w/p2'' ''react'', Stop ''p1'',
         Launch ''p3'' ''/w/p3'' ''react''] new_service))
     = [True, False, False]"
  by (simp add: start_react stopPreviewServer_def getActiveServers_def new_service_def)

text \<open>
  C4, as the code has it. A launch returns no address exactly when the language is not
  in the table, or has no run command, or needs no port; the service is then left as it
  was, so the listing is the one from before the launch. \<open>css\<close> is such a language.
  \<open>html\<close> is not: its entry has the run command \<^verbatim>\<open>serve\<close> and needs a port.
\<close>

theorem no_address_without_run_command:
  "(fst (startPreviewServer projectId projectPath lang st) = None \<longleftrightarrow> not_previewable lang) \<and>
   (not_previewable lang \<longrightarrow>
      snd (startPreviewServer projectId projectPath lang st) = st \<and>
      getActiveServers (snd (startPreviewServer projectId projectPath lang st)) = getActiveServers st) \<and>
   (not_previewable lang \<longleftrightarrow>
      (case map_of languageConfigs lang of
         None \<Rightarrow> True
       | Some c \<Rightarrow> runCmd c = None \<or> runCmd c = Some [] \<or> \<not> port c)) \<and>
   not_previewable ''css'' \<and> \<not> not_previewable ''html''"
proof -
  have 1: "fst (startPreviewServer projectId projectPath lang st) = None \<longleftrightarrow> not_previewable lang"
    by (cases "not_previewable lang") (simp_all add: start_not_previewable start_previewable)
  have 2: "not_previewable lang \<longleftrightarrow>
      (case map_of languageConfigs lang of
         None \<Rightarrow> True
       | Some c \<Rightarrow> runCmd c = None \<or> runCmd c = Some [] \<or> \<not> port c)"
    by (auto simp: not_previewable_def falsy_def split: option.splits)
  have 3: "not_previewable ''css''" "\<not> not_previewable ''html''"
    by (simp_all add: not_previewable_def css_config html_config falsy_def)
  show ?thesis using 1 2 3 by (simp add: start_not_previewable)
qed

theorem no_address_without_run_command_witness:
  "not_previewable ''css'' \<and>
   fst (startPreviewServer ''p1'' ''/w/p1'' ''css'' new_service) = None \<and>
   getActiveServers (snd (startPreviewServer ''p1'' ''/w/p1'' ''css'' new_service)) = []"
proof -
  note t = no_address_without_run_command [of "''p1''" "''/w/p1''" "''css''" new_service]
  from t have c: "not_previewable ''css''" by blast
  from t c have "fst (startPreviewServer ''p1'' ''/w/p1'' ''css'' new_service) = None"
    by blast
  moreover from t c have "getActiveServers (snd (startPreviewServer ''p1'' ''/w/p1'' ''css'' new_service))
      = getActiveServers new_service"
    by blast
  ultimately show ?thesis using c by (simp add: getActiveServers_def new_service_def)
qed

text \<open>
  C4, as specified, fails: a launch for \<open>html\<close> on the fresh service spawns
  \<^verbatim>\<open>serve\<close>, returns an address, and the listing holds the project.
\<close>

theorem html_launch_returns_address:
  "fst (startPreviewServer ''p1'' ''/w/p1'' ''html'' new_service) = Some ''http://localhost:3001'' \<and>
   map fst (getActiveServers (snd (startPreviewServer ''p1'' ''/w/p1'' ''html'' new_service))) = [''p1''] \<and>
   map args (children (snd (startPreviewServer ''p1'' ''/w/p1'' ''html'' new_service)))
     = [[''-c'', ''serve'']]"
  by (simp add: startPreviewServer_def not_previewable_def html_config falsy_def Let_def
        getActiveServers_def new_service_def toString_nat_ports)

subsection \<open>Classifying a message\<close>

lemma js_eq_Nil [simp]: "js s = [] \<longleftrightarrow> s = []"
  by (simp add: js_def)

lemma length_js [simp]: "length (js s) = length s"
  by (simp add: js_def)

lemma length_lower_unit: "length (lower_unit u) = (if u = 304 then 2 else 1)"
  by (simp add: lower_unit_def)

lemma length_toLowerCase_units:
  "length (toLowerCase_units s) = length s + count_list s 304"
  by (induction s) (simp_all add: toLowerCase_units_def length_lower_unit)

lemma isApp_iff:
  "isAppGenerationRequest message \<longleftrightarrow>
     (\<exists>keyword\<in>set appKeywords. \<exists>xs ys. toLowerCase_units message = xs @ js keyword @ ys) \<and>
     length (toLowerCase_units message) > 10"
  by (simp add: isAppGenerationRequest_def Let_def list_ex_iff str_includes_iff)

lemma map_mask_ascii: "\<forall>y\<in>set k. y \<le> 127 \<Longrightarrow> map mask k' = k \<Longrightarrow> k' = k"
proof (induction k arbitrary: k')
  case Nil
  then show ?case by simp
next
  case (Cons y k)
  then obtain x xs where k': "k' = x # xs" by auto
  with Cons.prems have "mask x = y" "map mask xs = k" "y \<le> 127" by auto
  then have "x = y" by (auto simp: mask_def split: if_splits)
  with Cons.IH [of xs] Cons.prems k' \<open>map mask xs = k\<close> show ?case by simp
qed

lemma includes_mask:
  assumes "\<forall>y\<in>set k. y \<le> 127"
  shows "str_includes (map mask s) k \<longleftrightarrow> str_includes s k"
proof
  have mk: "map mask k = k" using assms by (induction k) (auto simp: mask_def)
  {
    assume "str_includes s k"
    then obtain xs ys where "s = xs @ k @ ys" by (auto simp: str_includes_iff)
    then have "map mask s = map mask xs @ k @ map mask ys" by (simp add: mk)
    then show "str_includes (map mask s) k" unfolding str_includes_iff by blast
  }
  {
    assume "str_includes (map mask s) k"
    then obtain xs ys where "map mask s = xs @ k @ ys" by (auto simp: str_includes_iff)
    then obtain a r where s: "s = a @ r" and "k @ ys = map mask r"
      unfolding map_eq_append_conv by blast
    then obtain k' b where r: "r = k' @ b" and "k = map mask k'"
      unfolding append_eq_map_conv by blast
    then have "k' = k" using map_mask_ascii [OF assms, of k'] by simp
    with s r show "str_includes s k" unfolding str_includes_iff by blast
  }
qed

lemma lowered_mask:
  "lowered u vs \<Longrightarrow> map mask vs = map mask (lower_unit u) \<and> length vs = length (lower_unit u)"
  by (auto simp: lowered_def lower_unit_def mask_def split: if_splits list.splits)

lemma lowered_all_mask:
  "list_all2 lowered message vss \<Longrightarrow>
     map mask (concat vss) = map mask (toLowerCase_units message) \<and>
     length (concat vss) = length (toLowerCase_units message)"
proof (induction rule: list_all2_induct)
  case Nil
  show ?case by (simp add: toLowerCase_units_def)
next
  case (Cons u us vs vss)
  from lowered_mask [OF Cons.hyps(1)] Cons.IH show ?case
    by (simp add: toLowerCase_units_def)
qed

lemma keywords_ascii: "\<forall>keyword\<in>set appKeywords. \<forall>y\<in>set (js keyword). y \<le> 127"
  by (simp add: appKeywords_def js_def)

lemma classification_by_any_lowering:
  assumes "list_all2 lowered message vss"
  shows "(list_ex (\<lambda>keyword. str_includes (concat vss) (js keyword)) appKeywords \<and>
          length (concat vss) > 10) = isAppGenerationRequest message"
proof -
  from lowered_all_mask [OF assms]
  have m: "map mask (concat vss) = map mask (toLowerCase_units message)"
    and l: "length (concat vss) = length (toLowerCase_units message)" by simp_all
  have "str_includes (concat vss) (js keyword) = str_includes (toLowerCase_units message) (js keyword)"
    if "keyword \<in> set appKeywords" for keyword
  proof -
    from that keywords_ascii have a: "\<forall>y\<in>set (js keyword). y \<le> 127" by blast
    show ?thesis
      using includes_mask [OF a, of "concat vss"] includes_mask [OF a, of "toLowerCase_units message"] m
      by simp
  qed
  then show ?thesis
    by (auto simp: isAppGenerationRequest_def Let_def list_ex_iff l)
qed

lemma handleChatMessage_kind:
  "fst (handleChatMessage userId message now answer st) =
     (if isAppGenerationRequest message
      then ChatResult True ''app_generation''
             (js ''I'll create that application for you! Let me work on it...'') True
      else ChatResult True ''chat'' (generateChatResponse answer) False)"
  by (simp add: handleChatMessage_def Let_def)

text \<open>
  C7, as the code has it. A message is a generation request exactly when some keyword
  occurs in its lower-cased text and the lower-cased text is longer than 10 units;
  \<^verbatim>\<open>handleChatMessage\<close> answers with the kind \<open>app_generation\<close> in that case and with
  \<open>chat\<close> otherwise. Lower-casing adds one unit for every capital I with a dot and
  keeps the length otherwise. So a message of at most 10 units without that letter is
  never a generation request; \<open>build it\<close> has 8 units and is plain chat although
  \<open>build\<close> is a keyword.
\<close>

theorem generation_request_iff_lowered_keyword_and_length:
  "(\<forall>message. isAppGenerationRequest message \<longleftrightarrow>
       (\<exists>keyword\<in>set appKeywords. \<exists>xs ys. toLowerCase_units message = xs @ js keyword @ ys) \<and>
       length (toLowerCase_units message) > 10) \<and>
   (\<forall>message. length (toLowerCase_units message) = length message + count_list message 304) \<and>
   (\<forall>message. length message \<le> 10 \<and> 304 \<notin> set message \<longrightarrow> \<not> isAppGenerationRequest message) \<and>
   (\<forall>userId message now answer st.
       fst (handleChatMessage userId message now answer st) =
         (if isAppGenerationRequest message
          then ChatResult True ''app_generation''
                 (js ''I'll create that application for you! Let me work on it...'') True
          else ChatResult True ''chat'' (generateChatResponse answer) False)) \<and>
   ''build'' \<in> set appKeywords \<and> length (js ''build it'') = 8 \<and>
   \<not> isAppGenerationRequest (js ''build it'')"
proof -
  have short: "\<not> isAppGenerationRequest message"
    if "length message \<le> 10 \<and> 304 \<notin> set message" for message
    using that isApp_iff [of message] by (simp add: length_toLowerCase_units)
  have kw: "''build'' \<in> set appKeywords" by (simp add: appKeywords_def)
  have len: "length (js ''build it'') = 8" by simp
  have "304 \<notin> set (js ''build it'')" by (simp add: js_def)
  with short [of "js ''build it''"] have b: "\<not> isAppGenerationRequest (js ''build it'')" by simp
  show ?thesis
    using isApp_iff length_toLowerCase_units short handleChatMessage_kind kw len b
    by (intro conjI allI impI) blast+
qed

theorem generation_request_iff_lowered_keyword_and_length_witness:
  "length (js ''build it'') \<le> 10 \<and> 304 \<notin> set (js ''build it'') \<and>
   \<not> isAppGenerationRequest (js ''build it'') \<and>
   (\<exists>keyword\<in>set appKeywords. \<exists>xs ys.
       toLowerCase_units (js ''Build me a TODO list'') = xs @ js keyword @ ys) \<and>
   length (toLowerCase_units (js ''Build me a TODO list'')) > 10 \<and>
   isAppGenerationRequest (js ''Build me a TODO list'')"
proof -
  note t = generation_request_iff_lowered_keyword_and_length
  have s: "length (js ''build it'') \<le> 10 \<and> 304 \<notin> set (js ''build it'')"
    by (simp add: js_def)
  from t s have n: "\<not> isAppGenerationRequest (js ''build it'')" by blast
  have "toLowerCase_units (js ''Build me a TODO list'') = [] @ js ''build'' @ js '' me a todo list''"
    by code_simp
  moreover have "''build'' \<in> set appKeywords" by (simp add: appKeywords_def)
  ultimately have k: "\<exists>keyword\<in>set appKeywords. \<exists>xs ys.
       toLowerCase_units (js ''Build me a TODO list'') = xs @ js keyword @ ys"
    by blast
  have l: "length (toLowerCase_units (js ''Build me a TODO list'')) > 10"
    by (simp add: length_toLowerCase_units)
  from t k l have y: "isAppGenerationRequest (js ''Build me a TODO list'')" by blast
  from s n k l y show ?thesis by blast
qed

text \<open>
  C7, as specified, fails for short messages: five capital I with a dot followed by
  \<open> app\<close> make a message of 9 units whose lower-cased text has 14 units and holds the
  keyword \<open>app\<close>, so it is classified as a generation request. (The keyword test is
  also made on the lower-cased text: \<open>BUILD SOMETHING NOW\<close> holds no keyword as
  written and is a generation request.)
\<close>

theorem short_message_classified_as_generation:
  "length ([304, 304, 304, 304, 304] @ js '' app'') = 9 \<and>
   length ([304, 304, 304, 304, 304] @ js '' app'') \<le> 10 \<and>
   ''app'' \<in> set appKeywords \<and>
   toLowerCase_units ([304, 304, 304, 304, 304] @ js '' app'')
     = [105, 775, 105, 775, 105, 775, 105, 775, 105, 775] @ js '' app'' \<and>
   isAppGenerationRequest ([304, 304, 304, 304, 304] @ js '' app'') \<and>
   \<not> list_ex (\<lambda>keyword. str_includes (js ''BUILD SOMETHING NOW'') (js keyword)) appKeywords \<and>
   isAppGenerationRequest (js ''BUILD SOMETHING NOW'')"
proof -
  have 1: "length ([304, 304, 304, 304, 304] @ js '' app'') = 9" by simp
  have 2: "''app'' \<in> set appKeywords" by (simp add: appKeywords_def)
  have 3: "toLowerCase_units ([304, 304, 304, 304, 304] @ js '' app'')
     = [105, 775, 105, 775, 105, 775, 105, 775, 105, 775] @ js '' app''"
    by code_simp
  have 4: "isAppGenerationRequest ([304, 304, 304, 304, 304] @ js '' app'')" by code_simp
  have 5: "\<not> list_ex (\<lambda>keyword. str_includes (js ''BUILD SOMETHING NOW'') (js keyword)) appKeywords"
    by code_simp
  have 6: "isAppGenerationRequest (js ''BUILD SOMETHING NOW'')" by code_simp
  from 1 2 3 4 5 6 show ?thesis by simp
qed

subsection \<open>The retry delay\<close>

lemma retryDelays_nth:
  "retryDelays ! min n (length retryDelays - 1) =
     (if n = 0 then 1000 else if n = 1 then 2000 else if n = 2 then 4000
      else if n = 3 then 8000 else 16000)"
proof -
  consider "n = 0" | "n = 1" | "n = 2" | "n = 3" | "n \<ge> 4" by linarith
  then show ?thesis
    by cases (simp_all add: retryDelays_def min_def)
qed

lemma handleTaskError_retry:
  assumes "retries (taskQueue st ! i) + 1 \<le> maxRetries (taskQueue st ! i)"
  shows "handleTaskError i st =
     (Some (retryDelays ! min (retries (taskQueue st ! i)) (length retryDelays - 1)),
      st\<lparr>taskQueue := (taskQueue st)[i := (taskQueue st ! i)
            \<lparr>retries := retries (taskQueue st ! i) + 1, status_t := pending\<rparr>]\<rparr>)"
  using assms by (simp add: handleTaskError_def Let_def)

text \<open>
  C3. When a failure is retried (the incremented counter \<open>n\<close> is within the limit), the
  delay slept before the task is made pending again is entry \<open>min (n - 1) 4\<close> of the
  table 1000, 2000, 4000, 8000, 16000: the table's entries in turn for \<open>n\<close> from 1 to 5,
  and 16000 for every larger \<open>n\<close>.
\<close>

theorem retry_delay_table:
  assumes "i < length (taskQueue st)"
    and "retries (taskQueue st ! i) + 1 \<le> maxRetries (taskQueue st ! i)"
  shows "let n = retries (taskQueue st ! i) + 1 in
     fst (handleTaskError i st) = Some (retryDelays ! min (n - 1) (length retryDelays - 1)) \<and>
     fst (handleTaskError i st) =
       Some (if n = 1 then 1000 else if n = 2 then 2000 else if n = 3 then 4000
             else if n = 4 then 8000 else 16000) \<and>
     retryDelays = [1000, 2000, 4000, 8000, 16000] \<and>
     status_t (taskQueue (snd (handleTaskError i st)) ! i) = pending \<and>
     retries (taskQueue (snd (handleTaskError i st)) ! i) = n"
  using assms
  by (simp add: handleTaskError_retry [OF assms(2)] retryDelays_nth Let_def)
    (simp add: retryDelays_def)

theorem retry_delay_table_witness:
  "0 < length (taskQueue (addTask \<lparr>id_t = ''app_1_u'', type_t = file_generation,
          data_t = Request ''u'' (js ''build me a todo app'') 0, retries = 0, maxRetries = 3,
          priority_t = high, status_t = pending\<rparr> new_loop)) \<and>
   fst (handleTaskError 0 (addTask \<lparr>id_t = ''app_1_u'', type_t = file_generation,
          data_t = Request ''u'' (js ''build me a todo app'') 0, retries = 0, maxRetries = 3,
          priority_t = high, status_t = pending\<rparr> new_loop)) = Some 1000 \<and>
   fst (handleTaskError 0 (addTask \<lparr>id_t = ''app_1_u'', type_t = file_generation,
          data_t = Request ''u'' (js ''build me a todo app'') 0, retries = 5, maxRetries = 9,
          priority_t = high, status_t = pending\<rparr> new_loop)) = Some 16000"
proof -
  let ?t = "\<lambda>r m. \<lparr>id_t = ''app_1_u'', type_t = file_generation,
          data_t = Request ''u'' (js ''build me a todo app'') 0, retries = r, maxRetries = m,
          priority_t = high, status_t = pending\<rparr>"
  have l: "0 < length (taskQueue (addTask (?t 0 3) new_loop))"
          "0 < length (taskQueue (addTask (?t 5 9) new_loop))"
    by (simp_all add: addTask_def new_loop_def)
  have r: "retries (taskQueue (addTask (?t 0 3) new_loop) ! 0) + 1
             \<le> maxRetries (taskQueue (addTask (?t 0 3) new_loop) ! 0)"
          "retries (taskQueue (addTask (?t 5 9) new_loop) ! 0) + 1
             \<le> maxRetries (taskQueue (addTask (?t 5 9) new_loop) ! 0)"
    by (simp_all add: addTask_def new_loop_def)
  have a: "fst (handleTaskError 0 (addTask (?t 0 3) new_loop)) = Some 1000"
    using retry_delay_table [OF l(1) r(1), unfolded Let_def, THEN conjunct2, THEN conjunct1]
    by (simp add: addTask_def new_loop_def)
  have b: "fst (handleTaskError 0 (addTask (?t 5 9) new_loop)) = Some 16000"
    using retry_delay_table [OF l(2) r(2), unfolded Let_def, THEN conjunct2, THEN conjunct1]
    by (simp add: addTask_def new_loop_def)
  from l(1) a b show ?thesis by (intro conjI)
qed

subsection \<open>Merging generated files\<close>

lemma merge_files_other:
  "k \<notin> fst ` set new \<Longrightarrow> map_of (merge_files m new) k = map_of m k"
  by (induction m new rule: merge_files.induct) (auto simp: update_conv')

lemma merge_files_distinct:
  "distinct (map fst m) \<Longrightarrow> distinct (map fst (merge_files m new))"
  by (induction m new rule: merge_files.induct) (auto simp: distinct_update)

lemma merge_files_keys:
  "fst ` set (merge_files m new) = fst ` set m \<union> fst ` set new"
  by (induction m new rule: merge_files.induct) (auto simp: dom_update)

lemma merge_files_new:
  "distinct (map fst new) \<Longrightarrow> (k, v) \<in> set new \<Longrightarrow>
   map_of (merge_files m new) k = Some \<lparr>content = g_content v, language = g_language v\<rparr>"
proof (induction m new rule: merge_files.induct)
  case (1 m)
  then show ?case by simp
next
  case (2 m filename fileData rest)
  show ?case
  proof (cases "(k, v) \<in> set rest")
    case True
    with 2 show ?thesis by simp
  next
    case False
    with 2 have kv: "k = filename" "v = fileData" by auto
    with 2 have "k \<notin> fst ` set rest" by (auto simp: image_iff)
    then show ?thesis using kv by (simp add: merge_files_other update_conv')
  qed
qed

lemma heap_addTask [simp]: "heap (addTask task st) = heap st"
  by (simp add: addTask_def)

lemma heap_push_turn:
  "heap (push_turn a turn st) =
     (heap st)[a := (heap st ! a)\<lparr>conversationHistory := conversationHistory (heap st ! a) @ [turn]\<rparr>]"
  by (simp add: push_turn_def)

lemma executeFileGeneration_ok:
  assumes "data_t task = Request userId message session" "success result" "files result = Some new"
  shows "executeFileGeneration task (Returns result) now st =
     Inr (push_turn session
            (assistant, generated_summary (map fst new) (previewUrl_r result))
            (let st1 = st\<lparr>heap := (heap st)[session := (heap st ! session)
                               \<lparr>activeFiles := merge_files (activeFiles (heap st ! session)) new\<rparr>]\<rparr>
             in if \<not> falsy (projectId_r result) \<and> \<not> falsy (previewUrl_r result) then
                  addTask \<lparr>id_t = ''preview_'' @ toString_nat now @ ''_'' @ userId,
                           type_t = preview_update,
                           data_t = Preview userId (the (projectId_r result)) (the (previewUrl_r result)),
                           retries = 0, maxRetries = 2, priority_t = high, status_t = pending\<rparr>
                    (st1\<lparr>heap := (heap st1)[session := (heap st1 ! session)
                            \<lparr>projectId_c := projectId_r result\<rparr>]\<rparr>)
                else st1))"
  using assms by (simp add: executeFileGeneration_def Let_def set_projectId_def)

lemma executeFileGeneration_files:
  assumes d: "data_t task = Request userId message session" and s: "session < length (heap st)"
    and r: "success result" "files result = Some new"
  shows "\<exists>st'. executeFileGeneration task (Returns result) now st = Inr st' \<and>
     length (heap st') = length (heap st) \<and>
     activeFiles (heap st' ! session) = merge_files (activeFiles (heap st ! session)) new \<and>
     (\<forall>b. b \<noteq> session \<longrightarrow> heap st' ! b = heap st ! b)"
proof (cases "\<not> falsy (projectId_r result) \<and> \<not> falsy (previewUrl_r result)")
  case True
  show ?thesis
    unfolding executeFileGeneration_ok [OF d r] Let_def
    using True s by (simp add: heap_push_turn)
next
  case False
  show ?thesis
    unfolding executeFileGeneration_ok [OF d r] Let_def
    using False s by (simp add: heap_push_turn)
qed

text \<open>
  C9. Storing \<open>{a: x}\<close> and then \<open>{b: y}\<close> in an empty mapping gives \<open>{a: x, b: y}\<close>;
  storing \<open>{a: z}\<close> after \<open>{a: x}\<close> gives \<open>{a: z}\<close>. In general a merge leaves every
  name that is not among the new files as it was, its names are the old ones together
  with the new ones, names stay unique, and every new file is found under its name
  afterwards. A successful generation task merges the generated files into the files of
  its own session in this way and into no other session.
\<close>

theorem files_merge_monotonic:
  "(\<forall>a b x y. a \<noteq> b \<longrightarrow>
      merge_files (merge_files [] [(a, x)]) [(b, y)]
        = [(a, \<lparr>content = g_content x, language = g_language x\<rparr>),
           (b, \<lparr>content = g_content y, language = g_language y\<rparr>)]) \<and>
   (\<forall>a x z. merge_files (merge_files [] [(a, x)]) [(a, z)]
        = [(a, \<lparr>content = g_content z, language = g_language z\<rparr>)]) \<and>
   (\<forall>m new k. k \<notin> fst ` set new \<longrightarrow> map_of (merge_files m new) k = map_of m k) \<and>
   (\<forall>m new. fst ` set (merge_files m new) = fst ` set m \<union> fst ` set new) \<and>
   (\<forall>m new. distinct (map fst m) \<longrightarrow> distinct (map fst (merge_files m new))) \<and>
   (\<forall>m new k v. distinct (map fst new) \<and> (k, v) \<in> set new \<longrightarrow>
      map_of (merge_files m new) k = Some \<lparr>content = g_content v, language = g_language v\<rparr>) \<and>
   (\<forall>task userId message session st result new now.
      data_t task = Request userId message session \<and> session < length (heap st) \<and>
      success result \<and> files result = Some new \<longrightarrow>
      (\<exists>st'. executeFileGeneration task (Returns result) now st = Inr st' \<and>
         length (heap st') = length (heap st) \<and>
         activeFiles (heap st' ! session) = merge_files (activeFiles (heap st ! session)) new \<and>
         (\<forall>b. b \<noteq> session \<longrightarrow> heap st' ! b = heap st ! b)))"
  apply (intro conjI allI impI)
  subgoal by simp
  subgoal by simp
  subgoal by (rule merge_files_other)
  subgoal by (rule merge_files_keys)
  subgoal by (rule merge_files_distinct)
  subgoal using merge_files_new by blast
  subgoal using executeFileGeneration_files by blast
  done

theorem files_merge_monotonic_witness:
  "''a.js'' \<noteq> ''b.js'' \<and>
   merge_files (merge_files [] [(''a.js'', \<lparr>g_content = ''x'', g_language = ''javascript'', g_path = ''/a.js''\<rparr>)])
      [(''b.js'', \<lparr>g_content = ''y'', g_language = ''javascript'', g_path = ''/b.js''\<rparr>)]
     = [(''a.js'', \<lparr>content = ''x'', language = ''javascript''\<rparr>),
        (''b.js'', \<lparr>content = ''y'', language = ''javascript''\<rparr>)] \<and>
   ''a.js'' \<notin> fst ` set [(''b.js'', \<lparr>g_content = ''y'', g_language = ''javascript'', g_path = ''/b.js''\<rparr>)] \<and>
   map_of (merge_files [(''a.js'', \<lparr>content = ''x'', language = ''javascript''\<rparr>)]
             [(''b.js'', \<lparr>g_content = ''y'', g_language = ''javascript'', g_path = ''/b.js''\<rparr>)]) ''a.js''
     = Some \<lparr>content = ''x'', language = ''javascript''\<rparr> \<and>
   distinct (map fst [(''a.js'', \<lparr>content = ''x'', language = ''javascript''\<rparr>)]) \<and>
   distinct (map fst (merge_files [(''a.js'', \<lparr>content = ''x'', language = ''javascript''\<rparr>)]
             [(''a.js'', \<lparr>g_content = ''z'', g_language = ''javascript'', g_path = ''/a.js''\<rparr>)]))"
proof -
  have ne: "''a.js'' \<noteq> ''b.js''" by simp
  have nin: "''a.js'' \<notin> fst ` set [(''b.js'', \<lparr>g_content = ''y'', g_language = ''javascript'', g_path = ''/b.js''\<rparr>)]"
    by simp
  have d: "distinct (map fst [(''a.js'', \<lparr>content = ''x'', language = ''javascript''\<rparr>)])" by simp
  note c1 = files_merge_monotonic [THEN conjunct1, rule_format]
  note c3 = files_merge_monotonic [THEN conjunct2, THEN conjunct2, THEN conjunct1, rule_format]
  note c5 = files_merge_monotonic [THEN conjunct2, THEN conjunct2, THEN conjunct2, THEN conjunct2,
              THEN conjunct1, rule_format]
  have 1: "merge_files (merge_files [] [(''a.js'', \<lparr>g_content = ''x'', g_language = ''javascript'', g_path = ''/a.js''\<rparr>)])
      [(''b.js'', \<lparr>g_content = ''y'', g_language = ''javascript'', g_path = ''/b.js''\<rparr>)]
     = [(''a.js'', \<lparr>content = ''x'', language = ''javascript''\<rparr>),
        (''b.js'', \<lparr>content = ''y'', language = ''javascript''\<rparr>)]"
    using c1 [OF ne, of "\<lparr>g_content = ''x'', g_language = ''javascript'', g_path = ''/a.js''\<rparr>"
                       "\<lparr>g_content = ''y'', g_language = ''javascript'', g_path = ''/b.js''\<rparr>"]
    by simp
  have 2: "map_of (merge_files [(''a.js'', \<lparr>content = ''x'', language = ''javascript''\<rparr>)]
             [(''b.js'', \<lparr>g_content = ''y'', g_language = ''javascript'', g_path = ''/b.js''\<rparr>)]) ''a.js''
     = Some \<lparr>content = ''x'', language = ''javascript''\<rparr>"
    using c3 [OF nin, of "[(''a.js'', \<lparr>content = ''x'', language = ''javascript''\<rparr>)]"]
    by simp
  have 3: "distinct (map fst (merge_files [(''a.js'', \<lparr>content = ''x'', language = ''javascript''\<rparr>)]
             [(''a.js'', \<lparr>g_content = ''z'', g_language = ''javascript'', g_path = ''/a.js''\<rparr>)]))"
    using c5 [OF d] .
  from ne nin d 1 2 3 show ?thesis by (intro conjI)
qed

subsection \<open>The invariant of the task loop\<close>

lemma grows_refl: "grows st st"
  by (simp add: grows_def)

lemma grows_trans: "grows st st' \<Longrightarrow> grows st' st'' \<Longrightarrow> grows st st''"
  by (simp add: grows_def)

lemma grows_sessions_ok: "grows st st' \<Longrightarrow> sessions_ok st \<Longrightarrow> sessions_ok st'"
  unfolding grows_def sessions_ok_def by fastforce

lemma history_push:
  "conversationHistory (heap (push_turn a turn st) ! b) \<noteq> [] \<longleftrightarrow>
     conversationHistory (heap st ! b) \<noteq> [] \<or> (a = b \<and> a < length (heap st))"
proof (cases "a < length (heap st)")
  case True
  then show ?thesis by (cases "a = b") (simp_all add: push_turn_def nth_list_update)
next
  case False
  then show ?thesis by (simp add: push_turn_def list_update_beyond)
qed

lemma grows_push_turn: "grows st (push_turn a turn st)"
  by (simp add: grows_def history_push) (simp add: push_turn_def)

lemma taskQueue_push_turn [simp]: "taskQueue (push_turn a turn st) = taskQueue st"
  by (simp add: push_turn_def)

lemma activeSessions_push_turn [simp]: "activeSessions (push_turn a turn st) = activeSessions st"
  by (simp add: push_turn_def)

lemma grows_addTask: "grows st (addTask task st)"
  by (simp add: grows_def addTask_def)

lemma taskQueue_addTask [simp]: "taskQueue (addTask task st) = taskQueue st @ [task]"
  by (simp add: addTask_def)

lemma activeSessions_addTask [simp]: "activeSessions (addTask task st) = activeSessions st"
  by (simp add: addTask_def)

lemma grows_set_status: "grows st (set_status i s st)"
  by (simp add: grows_def set_status_def)

lemma taskQueue_set_status:
  "taskQueue (set_status i s st) = (taskQueue st)[i := (taskQueue st ! i)\<lparr>status_t := s\<rparr>]"
  by (simp add: set_status_def)

lemma activeSessions_set_status [simp]: "activeSessions (set_status i s st) = activeSessions st"
  by (simp add: set_status_def)

lemma heap_set_status [simp]: "heap (set_status i s st) = heap st"
  by (simp add: set_status_def)

lemma executeFileGeneration_plain:
  assumes "data_t task = Request userId message session" "success result" "files result = Some new"
    and "falsy (projectId_r result) \<or> falsy (previewUrl_r result)"
  shows "executeFileGeneration task (Returns result) now st =
     Inr (push_turn session
            (assistant, generated_summary (map fst new) (previewUrl_r result))
            (st\<lparr>heap := (heap st)[session := (heap st ! session)
                    \<lparr>activeFiles := merge_files (activeFiles (heap st ! session)) new\<rparr>]\<rparr>))"
  using assms by (auto simp: executeFileGeneration_def Let_def)

lemma executeFileGeneration_preview:
  assumes "data_t task = Request userId message session" "success result" "files result = Some new"
    and "\<not> falsy (projectId_r result)" "\<not> falsy (previewUrl_r result)"
  shows "executeFileGeneration task (Returns result) now st =
     Inr (push_turn session
            (assistant, generated_summary (map fst new) (previewUrl_r result))
            (addTask \<lparr>id_t = ''preview_'' @ toString_nat now @ ''_'' @ userId,
                      type_t = preview_update,
                      data_t = Preview userId (the (projectId_r result)) (the (previewUrl_r result)),
                      retries = 0, maxRetries = 2, priority_t = high, status_t = pending\<rparr>
               (set_projectId session (projectId_r result)
                  (st\<lparr>heap := (heap st)[session := (heap st ! session)
                       \<lparr>activeFiles := merge_files (activeFiles (heap st ! session)) new\<rparr>]\<rparr>))))"
  using assms by (simp add: executeFileGeneration_def Let_def)

lemma grows_heap_field:
  assumes "conversationHistory (g (heap st ! a)) = conversationHistory (heap st ! a)"
  shows "grows st (st\<lparr>heap := (heap st)[a := g (heap st ! a)]\<rparr>)"
  using assms by (simp add: grows_def nth_update_field)

lemma queued_more_same: "taskQueue st' = taskQueue st \<Longrightarrow> queued_more t st st'"
  by (simp add: queued_more_def)

lemma executeFileGeneration_Inr:
  assumes "executeFileGeneration t answer now st = Inr st2"
  shows "grows st st2 \<and> queued_more t st st2"
proof -
  from assms obtain userId message session result new
    where d: "data_t t = Request userId message session"
      and a: "answer = Returns result" and r: "success result" "files result = Some new"
    by (auto simp: executeFileGeneration_def split: task_data.splits ai_call.splits if_splits)
  show ?thesis
  proof (cases "falsy (projectId_r result) \<or> falsy (previewUrl_r result)")
    case True
    define st1 where "st1 = st\<lparr>heap := (heap st)[session := (heap st ! session)
                 \<lparr>activeFiles := merge_files (activeFiles (heap st ! session)) new\<rparr>]\<rparr>"
    have g1: "grows st st1" unfolding st1_def by (rule grows_heap_field) simp
    have q1: "taskQueue st1 = taskQueue st" by (simp add: st1_def)
    have "st2 = push_turn session
            (assistant, generated_summary (map fst new) (previewUrl_r result)) st1"
      using assms unfolding a executeFileGeneration_plain [OF d r True] st1_def by simp
    then have st2: "st2 = push_turn session
            (assistant, generated_summary (map fst new) (previewUrl_r result)) st1" .
    have "grows st st2" unfolding st2 using g1 grows_push_turn by (rule grows_trans)
    moreover have "taskQueue st2 = taskQueue st" by (simp add: st2 q1)
    ultimately show ?thesis by (simp add: queued_more_same)
  next
    case False
    then have p: "\<not> falsy (projectId_r result)" "\<not> falsy (previewUrl_r result)" by simp_all
    define st1 where "st1 = st\<lparr>heap := (heap st)[session := (heap st ! session)
                 \<lparr>activeFiles := merge_files (activeFiles (heap st ! session)) new\<rparr>]\<rparr>"
    define st1' where "st1' = set_projectId session (projectId_r result) st1"
    define task where "task = \<lparr>id_t = ''preview_'' @ toString_nat now @ ''_'' @ userId,
                           type_t = preview_update,
                           data_t = Preview userId (the (projectId_r result)) (the (previewUrl_r result)),
                           retries = 0, maxRetries = 2, priority_t = high, status_t = pending\<rparr>"
    have g1: "grows st st1" unfolding st1_def by (rule grows_heap_field) simp
    have g2: "grows st1 st1'" unfolding st1'_def set_projectId_def by (rule grows_heap_field) simp
    have q1: "taskQueue st1' = taskQueue st" by (simp add: st1_def st1'_def set_projectId_def)
    have "st2 = push_turn session
            (assistant, generated_summary (map fst new) (previewUrl_r result)) (addTask task st1')"
      using assms unfolding a executeFileGeneration_preview [OF d r p] st1_def st1'_def task_def by simp
    then have st2: "st2 = push_turn session
            (assistant, generated_summary (map fst new) (previewUrl_r result)) (addTask task st1')" .
    have "grows st st1'" using g1 g2 by (rule grows_trans)
    then have "grows st (addTask task st1')" using grows_addTask by (rule grows_trans)
    then have "grows st st2" unfolding st2 using grows_push_turn by (rule grows_trans)
    moreover have "taskQueue st2 = taskQueue st @ [task]" by (simp add: st2 q1)
    moreover have "data_userId (data_t task) = data_userId (data_t t)"
      by (simp add: task_def d)
    moreover have "status_t task = pending" "retries task = 0" "\<forall>u m s. data_t task \<noteq> Request u m s"
      by (simp_all add: task_def)
    ultimately show ?thesis
      unfolding queued_more_def by auto
  qed
qed

lemma executeChatTask_Inr:
  assumes "executeChatTask t answer st = Inr st2"
  shows "grows st st2 \<and> queued_more t st st2"
  using assms grows_push_turn
  by (auto simp: executeChatTask_def queued_more_def split: task_data.splits)

lemma executeTask_Inr:
  assumes "executeTask t answer now st = Inr st2"
  shows "grows st st2 \<and> queued_more t st st2"
proof (cases "type_t t")
  case chat
  with assms show ?thesis by (simp add: executeTask_def executeChatTask_Inr)
next
  case file_generation
  with assms show ?thesis by (simp add: executeTask_def executeFileGeneration_Inr)
next
  case preview_update
  with assms show ?thesis
    by (simp add: executeTask_def executePreviewUpdate_def grows_refl queued_more_same)
qed

lemma handleTaskError_fail:
  assumes "\<not> retries (taskQueue st ! i) + 1 \<le> maxRetries (taskQueue st ! i)"
  shows "handleTaskError i st =
     (None,
      let st1 = st\<lparr>taskQueue := (taskQueue st)[i := (taskQueue st ! i)
                  \<lparr>retries := retries (taskQueue st ! i) + 1, status_t := failed\<rparr>]\<rparr>
      in if data_userId (data_t (taskQueue st ! i)) \<noteq> [] then
           (case map_of (activeSessions st) (data_userId (data_t (taskQueue st ! i))) of
              Some session \<Rightarrow> push_turn session (assistant, failure_notice) st1
            | None \<Rightarrow> st1)
         else st1)"
  using assms by (simp add: handleTaskError_def Let_def)

lemma handleTaskError_shape:
  "\<exists>t'. taskQueue (snd (handleTaskError i st)) = (taskQueue st)[i := t'] \<and>
        data_t t' = data_t (taskQueue st ! i) \<and>
        maxRetries t' = maxRetries (taskQueue st ! i) \<and>
        retries t' = retries (taskQueue st ! i) + 1 \<and>
        (if retries t' \<le> maxRetries t' then status_t t' = pending else status_t t' = failed) \<and>
        grows st (snd (handleTaskError i st))"
proof (cases "retries (taskQueue st ! i) + 1 \<le> maxRetries (taskQueue st ! i)")
  case True
  show ?thesis
    unfolding handleTaskError_retry [OF True] snd_conv
    using True by (intro exI [of _ "(taskQueue st ! i)
            \<lparr>retries := retries (taskQueue st ! i) + 1, status_t := pending\<rparr>"])
      (simp add: grows_def)
next
  case False
  define t' where "t' = (taskQueue st ! i)\<lparr>retries := retries (taskQueue st ! i) + 1, status_t := failed\<rparr>"
  define st1 where "st1 = st\<lparr>taskQueue := (taskQueue st)[i := t']\<rparr>"
  have g: "grows st st1" by (simp add: st1_def grows_def)
  have q: "taskQueue st1 = (taskQueue st)[i := t']" by (simp add: st1_def)
  have "snd (handleTaskError i st) = st1 \<or>
        (\<exists>a. snd (handleTaskError i st) = push_turn a (assistant, failure_notice) st1)"
    unfolding handleTaskError_fail [OF False] snd_conv Let_def st1_def t'_def
    by (cases "map_of (activeSessions st) (data_userId (data_t (taskQueue st ! i)))") auto
  then have "taskQueue (snd (handleTaskError i st)) = (taskQueue st)[i := t'] \<and>
             grows st (snd (handleTaskError i st))"
    using g q grows_push_turn grows_trans by (metis taskQueue_push_turn)
  then show ?thesis
    using False by (intro exI [of _ t']) (simp add: t'_def)
qed

lemma process_task_shape:
  assumes i: "i < length (taskQueue st)"
  shows "\<exists>t' new. taskQueue (process_task i answer now st) = (taskQueue st)[i := t'] @ new \<and>
           task_after (taskQueue st ! i) t' \<and>
           (\<forall>n\<in>set new. status_t n = pending \<and> retries n = 0 \<and>
              data_userId (data_t n) = data_userId (data_t (taskQueue st ! i)) \<and>
              (\<forall>u m s. data_t n \<noteq> Request u m s)) \<and>
           grows st (process_task i answer now st)"
proof -
  define t where "t = taskQueue st ! i"
  define st1 where "st1 = set_status i processing st"
  have q1: "taskQueue st1 = (taskQueue st)[i := t\<lparr>status_t := processing\<rparr>]"
    by (simp add: st1_def t_def taskQueue_set_status)
  have t1: "taskQueue st1 ! i = t\<lparr>status_t := processing\<rparr>"
    using i by (simp add: q1)
  have g1: "grows st st1" unfolding st1_def by (rule grows_set_status)
  show ?thesis
  proof (cases "executeTask (taskQueue st1 ! i) answer now st1")
    case (Inr st2)
    from executeTask_Inr [OF Inr] obtain new where
      g2: "grows st1 st2" and q2: "taskQueue st2 = taskQueue st1 @ new"
      and n: "\<forall>n\<in>set new. status_t n = pending \<and> retries n = 0 \<and>
                data_userId (data_t n) = data_userId (data_t (taskQueue st1 ! i)) \<and>
                (\<forall>u m s. data_t n \<noteq> Request u m s)"
      unfolding queued_more_def by blast
    have r: "process_task i answer now st = set_status i completed st2"
      using Inr by (simp add: process_task_def Let_def st1_def)
    have "taskQueue (process_task i answer now st)
            = (taskQueue st)[i := t\<lparr>status_t := completed\<rparr>] @ new"
      using i by (simp add: r taskQueue_set_status q2 q1 nth_append list_update_append1)
    moreover have "task_after t (t\<lparr>status_t := completed\<rparr>)"
      by (simp add: task_after_def)
    moreover have "grows st (process_task i answer now st)"
      unfolding r using g1 g2 grows_set_status by (meson grows_trans)
    ultimately show ?thesis
      using n unfolding t1 t_def [symmetric] by (intro exI [of _ "t\<lparr>status_t := completed\<rparr>"] exI [of _ new]) simp
  next
    case (Inl e)
    have r: "process_task i answer now st = snd (handleTaskError i st1)"
      using Inl by (simp add: process_task_def Let_def st1_def)
    from handleTaskError_shape [of i st1] obtain t' where
      h: "taskQueue (snd (handleTaskError i st1)) = (taskQueue st1)[i := t']"
         "data_t t' = data_t (taskQueue st1 ! i)"
         "maxRetries t' = maxRetries (taskQueue st1 ! i)"
         "retries t' = retries (taskQueue st1 ! i) + 1"
         "if retries t' \<le> maxRetries t' then status_t t' = pending else status_t t' = failed"
         "grows st1 (snd (handleTaskError i st1))"
      by blast
    have "taskQueue (process_task i answer now st) = (taskQueue st)[i := t'] @ []"
      by (simp add: r h(1) q1)
    moreover have "task_after t t'"
      using h(2-5) by (simp add: task_after_def t1)
    moreover have "grows st (process_task i answer now st)"
      unfolding r using g1 h(6) by (rule grows_trans)
    ultimately show ?thesis
      unfolding t_def [symmetric] by (intro exI [of _ t'] exI [of _ "[]"]) simp
  qed
qed

lemma task_ok_after:
  assumes "task_ok reg t" "status_t t = pending" "task_after t t'"
  shows "task_ok reg t'"
  using assms unfolding task_ok_def task_after_def
  by (auto split: if_splits)

lemma task_ok_new:
  assumes "task_ok reg t" "status_t n = pending" "retries n = 0"
    "data_userId (data_t n) = data_userId (data_t t)" "\<forall>u m s. data_t n \<noteq> Request u m s"
  shows "task_ok reg n"
  using assms unfolding task_ok_def by auto

lemma process_task_inv:
  assumes inv: "loop_inv st" and i: "i < length (taskQueue st)"
    and p: "status_t (taskQueue st ! i) = pending"
  shows "loop_inv (process_task i answer now st)"
proof -
  from process_task_shape [OF i, of answer now] obtain t' new where
    q: "taskQueue (process_task i answer now st) = (taskQueue st)[i := t'] @ new"
    and a: "task_after (taskQueue st ! i) t'"
    and n: "\<forall>n\<in>set new. status_t n = pending \<and> retries n = 0 \<and>
              data_userId (data_t n) = data_userId (data_t (taskQueue st ! i)) \<and>
              (\<forall>u m s. data_t n \<noteq> Request u m s)"
    and g: "grows st (process_task i answer now st)"
    by blast
  from g have reg: "activeSessions (process_task i answer now st) = activeSessions st"
    by (simp add: grows_def)
  from inv i have ti: "task_ok (activeSessions st) (taskQueue st ! i)"
    by (simp add: loop_inv_def)
  have "task_ok (activeSessions st) x" if "x \<in> set ((taskQueue st)[i := t'] @ new)" for x
  proof -
    from that consider "x \<in> set (taskQueue st)" | "x = t'" | "x \<in> set new"
      using set_update_subset_insert [of "taskQueue st" i t'] by auto
    then show ?thesis
    proof cases
      case 1
      with inv show ?thesis by (simp add: loop_inv_def)
    next
      case 2
      with task_ok_after [OF ti p a] show ?thesis by simp
    next
      case 3
      with n task_ok_new [OF ti] show ?thesis by blast
    qed
  qed
  moreover from inv g have "sessions_ok (process_task i answer now st)"
    using grows_sessions_ok by (simp add: loop_inv_def)
  ultimately show ?thesis by (simp add: loop_inv_def q reg)
qed

lemma process_task_other:
  assumes "i < length (taskQueue st)" "j < length (taskQueue st)" "j \<noteq> i"
  shows "taskQueue (process_task i answer now st) ! j = taskQueue st ! j"
    and "length (taskQueue st) \<le> length (taskQueue (process_task i answer now st))"
proof -
  from process_task_shape [OF assms(1), of answer now] obtain t' new where
    q: "taskQueue (process_task i answer now st) = (taskQueue st)[i := t'] @ new"
    by blast
  show "taskQueue (process_task i answer now st) ! j = taskQueue st ! j"
    using assms by (simp add: q nth_append)
  show "length (taskQueue st) \<le> length (taskQueue (process_task i answer now st))"
    by (simp add: q)
qed

lemma process_task_length:
  "length (taskQueue st) \<le> length (taskQueue (process_task i answer now st))"
proof (cases "i < length (taskQueue st)")
  case True
  from process_task_shape [OF True, of answer now] show ?thesis by auto
next
  case False
  then have 1: "taskQueue (set_status i processing st) = taskQueue st"
    by (simp add: taskQueue_set_status list_update_beyond)
  show ?thesis
  proof (cases "executeTask (taskQueue (set_status i processing st) ! i) answer now
                  (set_status i processing st)")
    case (Inr st2)
    from executeTask_Inr [OF Inr] obtain new where
      "taskQueue st2 = taskQueue (set_status i processing st) @ new"
      unfolding queued_more_def by blast
    then show ?thesis using Inr
      by (simp add: process_task_def Let_def taskQueue_set_status 1)
  next
    case (Inl e)
    from handleTaskError_shape [of i "set_status i processing st"] show ?thesis
      using Inl by (auto simp: process_task_def Let_def 1)
  qed
qed

lemma fold_process_inv:
  assumes "loop_inv st" "distinct ks"
    and "\<forall>i\<in>set ks. i < length (taskQueue st) \<and> status_t (taskQueue st ! i) = pending"
  shows "loop_inv (fold (\<lambda>i. process_task i (answers i) now) ks st)"
  using assms
proof (induction ks arbitrary: st)
  case Nil
  then show ?case by simp
next
  case (Cons i ks)
  let ?st = "process_task i (answers i) now st"
  from Cons.prems have i: "i < length (taskQueue st)" "status_t (taskQueue st ! i) = pending"
    by simp_all
  have 1: "loop_inv ?st" using Cons.prems(1) i by (rule process_task_inv)
  have 2: "distinct ks" using Cons.prems(2) by simp
  have 3: "\<forall>j\<in>set ks. j < length (taskQueue ?st) \<and> status_t (taskQueue ?st ! j) = pending"
  proof
    fix j assume j: "j \<in> set ks"
    with Cons.prems have jj: "j < length (taskQueue st)" "status_t (taskQueue st ! j) = pending" "j \<noteq> i"
      by auto
    from process_task_other [OF i(1) jj(1) jj(3), of "answers i" now] jj
    show "j < length (taskQueue ?st) \<and> status_t (taskQueue ?st ! j) = pending"
      by simp
  qed
  from Cons.IH [OF 1 2 3] show ?case by simp
qed

lemma fold_process_other:
  assumes "\<forall>i\<in>set ks. i < length (taskQueue st)" "j < length (taskQueue st)" "j \<notin> set ks"
  shows "j < length (taskQueue (fold (\<lambda>i. process_task i (answers i) now) ks st)) \<and>
         taskQueue (fold (\<lambda>i. process_task i (answers i) now) ks st) ! j = taskQueue st ! j"
  using assms
proof (induction ks arbitrary: st)
  case Nil
  then show ?case by simp
next
  case (Cons i ks)
  let ?st = "process_task i (answers i) now st"
  from Cons.prems have i: "i < length (taskQueue st)" "j \<noteq> i" by auto
  note o = process_task_other [OF i(1) Cons.prems(2) i(2), of "answers i" now]
  have 1: "\<forall>k\<in>set ks. k < length (taskQueue ?st)"
    using Cons.prems(1) o(2) by auto
  have 2: "j < length (taskQueue ?st)" using Cons.prems(2) o(2) by simp
  have 3: "j \<notin> set ks" using Cons.prems(3) by simp
  from Cons.IH [OF 1 2 3] o(1) show ?case by simp
qed

lemma pendingTasks_set:
  "set (pendingTasks st) = {i. i < length (taskQueue st) \<and> status_t (taskQueue st ! i) = pending}"
  by (auto simp: pendingTasks_def)

lemma pendingTasks_distinct: "distinct (pendingTasks st)"
  by (simp add: pendingTasks_def)

lemma processPendingTasks_inv:
  assumes "loop_inv st"
  shows "loop_inv (processPendingTasks answers now st)"
  unfolding processPendingTasks_def
proof (rule fold_process_inv [OF assms])
  show "distinct (take 3 (pendingTasks st))"
    using pendingTasks_distinct by (rule distinct_take)
  show "\<forall>i\<in>set (take 3 (pendingTasks st)).
          i < length (taskQueue st) \<and> status_t (taskQueue st ! i) = pending"
    using pendingTasks_set [of st] set_take_subset [of 3 "pendingTasks st"] by blast
qed

lemma processPendingTasks_keeps:
  assumes "j < length (taskQueue st)" "status_t (taskQueue st ! j) \<noteq> pending"
  shows "j < length (taskQueue (processPendingTasks answers now st)) \<and>
         taskQueue (processPendingTasks answers now st) ! j = taskQueue st ! j"
  unfolding processPendingTasks_def
proof (rule fold_process_other)
  show "\<forall>i\<in>set (take 3 (pendingTasks st)). i < length (taskQueue st)"
    using pendingTasks_set [of st] set_take_subset [of 3 "pendingTasks st"] by blast
  show "j < length (taskQueue st)" by fact
  show "j \<notin> set (take 3 (pendingTasks st))"
    using assms(2) pendingTasks_set [of st] set_take_subset [of 3 "pendingTasks st"] by blast
qed

lemma maintainActiveSessions_id:
  assumes "sessions_ok st"
  shows "maintainActiveSessions now elapsed st = st"
proof -
  have "filter (\<lambda>(userId, session).
                    \<not> (let lastActivity = (if conversationHistory (heap st ! session) \<noteq> []
                                            then now + elapsed userId else 0)
                       in int now - int lastActivity > 3600000))
            (activeSessions st) = activeSessions st"
    using assms unfolding sessions_ok_def by (intro filter_True) (auto simp: Let_def)
  then show ?thesis by (simp add: maintainActiveSessions_def)
qed

lemma cleanupCompletedTasks_inv:
  assumes "loop_inv st"
  shows "loop_inv (cleanupCompletedTasks st)"
  using assms by (auto simp: cleanupCompletedTasks_def Let_def loop_inv_def sessions_ok_def)

lemma cleanupCompletedTasks_keeps:
  assumes "t \<in> set (taskQueue st)" "status_t t \<noteq> completed"
  shows "t \<in> set (taskQueue (cleanupCompletedTasks st))"
  using assms by (simp add: cleanupCompletedTasks_def Let_def)

lemma tick_inv:
  assumes "loop_inv st"
  shows "loop_inv (tick answers now elapsed st)"
proof -
  have 1: "loop_inv (processPendingTasks answers now st)"
    using assms by (rule processPendingTasks_inv)
  then have "maintainActiveSessions now elapsed (processPendingTasks answers now st)
               = processPendingTasks answers now st"
    by (intro maintainActiveSessions_id) (simp add: loop_inv_def)
  then show ?thesis using 1 by (simp add: tick_def cleanupCompletedTasks_inv)
qed

lemma set_update_subset: "set (AList.update k v al) \<subseteq> insert (k, v) (set al)"
  by (induction al) auto

lemma task_ok_reg:
  assumes "task_ok reg t" "\<forall>u. map_of reg u \<noteq> None \<longrightarrow> map_of reg' u = map_of reg u"
  shows "task_ok reg' t"
  using assms unfolding task_ok_def by (metis option.distinct(1))

lemma handleChatMessage_inv:
  assumes inv: "loop_inv st" and u: "userId \<noteq> []"
  shows "loop_inv (snd (handleChatMessage userId message now answer st))"
proof -
  define st1 where "st1 = (case map_of (activeSessions st) userId of
                   Some a \<Rightarrow> st
                 | None \<Rightarrow>
                     st\<lparr>heap := heap st @
                           [\<lparr>userId_c = userId, projectId_c = None, conversationHistory = [],
                             activeFiles = [], isGenerating = False\<rparr>],
                        activeSessions := AList.update userId (length (heap st)) (activeSessions st)\<rparr>)"
  define session where "session = the (map_of (activeSessions st1) userId)"
  define st2 where "st2 = push_turn session (user, message) st1"
  from inv have so: "\<forall>(v, a)\<in>set (activeSessions st).
        a < length (heap st) \<and> conversationHistory (heap st ! a) \<noteq> []"
    by (simp add: loop_inv_def sessions_ok_def)
  have f: "map_of (activeSessions st1) userId = Some session \<and>
           (\<forall>v. map_of (activeSessions st) v \<noteq> None \<longrightarrow>
                 map_of (activeSessions st1) v = map_of (activeSessions st) v) \<and>
           session < length (heap st1) \<and>
           (\<forall>(v, a)\<in>set (activeSessions st1).
              a < length (heap st1) \<and> (a \<noteq> session \<longrightarrow> conversationHistory (heap st1 ! a) \<noteq> [])) \<and>
           taskQueue st1 = taskQueue st"
  proof (cases "map_of (activeSessions st) userId")
    case (Some a)
    then have 1: "st1 = st" "session = a" by (simp_all add: st1_def session_def)
    from Some have "(userId, a) \<in> set (activeSessions st)" by (rule map_of_SomeD)
    with so have "a < length (heap st)" by auto
    then show ?thesis using Some so unfolding 1 by auto
  next
    case None
    then have hp: "heap st1 = heap st @
                           [\<lparr>userId_c = userId, projectId_c = None, conversationHistory = [],
                             activeFiles = [], isGenerating = False\<rparr>]"
      and rg: "activeSessions st1 = AList.update userId (length (heap st)) (activeSessions st)"
      and tq: "taskQueue st1 = taskQueue st"
      by (simp_all add: st1_def)
    have ses: "session = length (heap st)"
      by (simp add: session_def rg update_conv')
    have e: "a < length (heap st1) \<and> (a \<noteq> session \<longrightarrow> conversationHistory (heap st1 ! a) \<noteq> [])"
      if "(v, a) \<in> set (activeSessions st1)" for v a
    proof -
      from that set_update_subset [of userId "length (heap st)" "activeSessions st"]
      consider (old) "(v, a) \<in> set (activeSessions st)" | (new) "a = length (heap st)"
        unfolding rg by auto
      then show ?thesis
      proof cases
        case old
        with so have "a < length (heap st) \<and> conversationHistory (heap st ! a) \<noteq> []" by auto
        then show ?thesis by (simp add: hp nth_append)
      next
        case new
        then show ?thesis by (simp add: hp ses)
      qed
    qed
    have "map_of (activeSessions st1) v = map_of (activeSessions st) v"
      if "map_of (activeSessions st) v \<noteq> None" for v
      using that None by (auto simp: rg update_conv')
    moreover have "map_of (activeSessions st1) userId = Some session"
      by (simp add: rg ses update_conv')
    moreover have "session < length (heap st1)" by (simp add: hp ses)
    ultimately show ?thesis using e tq by blast
  qed
  have reg2: "activeSessions st2 = activeSessions st1" by (simp add: st2_def)
  have so2: "sessions_ok st2"
    unfolding sessions_ok_def
  proof clarify
    fix v a assume "(v, a) \<in> set (activeSessions st2)"
    then have "(v, a) \<in> set (activeSessions st1)" by (simp add: reg2)
    with f have a: "a < length (heap st1)"
      "a \<noteq> session \<longrightarrow> conversationHistory (heap st1 ! a) \<noteq> []" by auto
    have "length (heap st2) = length (heap st1)" by (simp add: st2_def push_turn_def)
    moreover have "conversationHistory (heap st2 ! a) \<noteq> []"
      using a f by (auto simp: st2_def history_push)
    ultimately show "a < length (heap st2) \<and> conversationHistory (heap st2 ! a) \<noteq> []"
      using a by simp
  qed
  have old: "task_ok (activeSessions st1) t" if "t \<in> set (taskQueue st)" for t
    using inv that f task_ok_reg by (auto simp: loop_inv_def)
  have new: "task_ok (activeSessions st1)
     \<lparr>id_t = ident, type_t = ty, data_t = Request userId message session, retries = 0,
      maxRetries = m, priority_t = p, status_t = pending\<rparr>" for ident ty m p
    using f u by (simp add: task_ok_def)
  have inv3: "loop_inv (addTask
     \<lparr>id_t = ident, type_t = ty, data_t = Request userId message session, retries = 0,
      maxRetries = m, priority_t = p, status_t = pending\<rparr> st2)" for ident ty m p
  proof -
    let ?t = "\<lparr>id_t = ident, type_t = ty, data_t = Request userId message session, retries = 0,
      maxRetries = m, priority_t = p, status_t = pending\<rparr>"
    have q2: "taskQueue st2 = taskQueue st" using f by (simp add: st2_def)
    have "sessions_ok (addTask ?t st2)" using grows_addTask so2 by (rule grows_sessions_ok)
    moreover have "\<forall>t\<in>set (taskQueue (addTask ?t st2)). task_ok (activeSessions (addTask ?t st2)) t"
      using old new by (auto simp: reg2 q2)
    ultimately show ?thesis by (simp add: loop_inv_def)
  qed
  have inv4: "loop_inv (push_turn a turn st')" if "loop_inv st'" for a turn st'
    using that grows_push_turn [of st' a turn] grows_sessions_ok [of st' "push_turn a turn st'"]
    by (simp add: loop_inv_def)
  show ?thesis
    unfolding handleChatMessage_def Let_def st1_def [symmetric] session_def [symmetric]
      st2_def [symmetric]
    using inv3 inv4 by simp
qed

lemma enhanced_chat_inv:
  assumes "loop_inv st"
  shows "loop_inv (snd (enhanced_chat message userId now answer st))"
proof (cases "falsy message \<or> falsy userId")
  case True
  then show ?thesis using assms by (simp add: enhanced_chat_def)
next
  case False
  then have "the userId \<noteq> []" by (auto simp: falsy_def split: option.splits)
  from handleChatMessage_inv [OF assms this] False show ?thesis
    by (simp add: enhanced_chat_def case_prod_beta)
qed

lemma new_loop_inv: "loop_inv new_loop"
  by (simp add: loop_inv_def sessions_ok_def new_loop_def)

lemma loop_step_inv: "loop_inv st \<Longrightarrow> loop_inv (loop_step e st)"
  by (cases e) (simp_all add: enhanced_chat_inv tick_inv)

lemma loop_steps_inv: "loop_inv st \<Longrightarrow> loop_inv (loop_steps es st)"
  by (induction es arbitrary: st) (simp_all add: loop_step_inv)

lemma process_task_retried:
  assumes i: "i < length (taskQueue st)"
    and f: "isl (executeTask (taskQueue (set_status i processing st) ! i) answer now
                   (set_status i processing st))"
    and r: "retries (taskQueue st ! i) + 1 \<le> maxRetries (taskQueue st ! i)"
  shows "process_task i answer now st =
     st\<lparr>taskQueue := (taskQueue st)[i := (taskQueue st ! i)
          \<lparr>retries := retries (taskQueue st ! i) + 1, status_t := pending\<rparr>]\<rparr>"
proof -
  define st1 where "st1 = set_status i processing st"
  have t1: "taskQueue st1 ! i = (taskQueue st ! i)\<lparr>status_t := processing\<rparr>"
    using i by (simp add: st1_def taskQueue_set_status)
  from f obtain e where "executeTask (taskQueue st1 ! i) answer now st1 = Inl e"
    unfolding st1_def by (auto simp: isl_def)
  then have "process_task i answer now st = snd (handleTaskError i st1)"
    by (simp add: process_task_def Let_def st1_def)
  also have "\<dots> = st1\<lparr>taskQueue := (taskQueue st1)[i := (taskQueue st1 ! i)
            \<lparr>retries := retries (taskQueue st1 ! i) + 1, status_t := pending\<rparr>]\<rparr>"
    using r by (subst handleTaskError_retry) (simp_all add: t1)
  also have "\<dots> = st\<lparr>taskQueue := (taskQueue st)[i := (taskQueue st ! i)
          \<lparr>retries := retries (taskQueue st ! i) + 1, status_t := pending\<rparr>]\<rparr>"
    by (simp add: t1) (simp add: st1_def set_status_def)
  finally show ?thesis .
qed

lemma process_task_failed:
  assumes inv: "loop_inv st" and i: "i < length (taskQueue st)"
    and f: "isl (executeTask (taskQueue (set_status i processing st) ! i) answer now
                   (set_status i processing st))"
    and r: "\<not> retries (taskQueue st ! i) + 1 \<le> maxRetries (taskQueue st ! i)"
  shows "\<exists>a. map_of (activeSessions st) (data_userId (data_t (taskQueue st ! i))) = Some a \<and>
             a < length (heap st) \<and>
             (\<forall>u m s. data_t (taskQueue st ! i) = Request u m s \<longrightarrow> s = a) \<and>
             process_task i answer now st =
               push_turn a (assistant, failure_notice)
                 (st\<lparr>taskQueue := (taskQueue st)[i := (taskQueue st ! i)
                       \<lparr>retries := retries (taskQueue st ! i) + 1, status_t := failed\<rparr>]\<rparr>)"
proof -
  define t where "t = taskQueue st ! i"
  define st1 where "st1 = set_status i processing st"
  have t1: "taskQueue st1 ! i = t\<lparr>status_t := processing\<rparr>"
    using i by (simp add: st1_def t_def taskQueue_set_status)
  from inv i have ok: "task_ok (activeSessions st) t"
    by (simp add: loop_inv_def t_def)
  then obtain a where a: "map_of (activeSessions st) (data_userId (data_t t)) = Some a"
    and u: "data_userId (data_t t) \<noteq> []"
    by (auto simp: task_ok_def)
  from a have "(data_userId (data_t t), a) \<in> set (activeSessions st)" by (rule map_of_SomeD)
  with inv have al: "a < length (heap st)" by (auto simp: loop_inv_def sessions_ok_def)
  have own: "s = a" if "data_t t = Request u m s" for u m s
    using ok that a by (auto simp: task_ok_def)
  from f obtain e where "executeTask (taskQueue st1 ! i) answer now st1 = Inl e"
    unfolding st1_def by (auto simp: isl_def)
  then have "process_task i answer now st = snd (handleTaskError i st1)"
    by (simp add: process_task_def Let_def st1_def)
  also have "\<dots> = push_turn a (assistant, failure_notice)
       (st1\<lparr>taskQueue := (taskQueue st1)[i := (taskQueue st1 ! i)
                  \<lparr>retries := retries (taskQueue st1 ! i) + 1, status_t := failed\<rparr>]\<rparr>)"
  proof -
    have rs: "\<not> retries (taskQueue st1 ! i) + 1 \<le> maxRetries (taskQueue st1 ! i)"
      using r by (simp add: t1 t_def)
    have us: "data_userId (data_t (taskQueue st1 ! i)) \<noteq> []"
      using u by (simp add: t1)
    have as: "map_of (activeSessions st1) (data_userId (data_t (taskQueue st1 ! i))) = Some a"
      using a by (simp add: t1) (simp add: st1_def)
    show ?thesis
      unfolding handleTaskError_fail [OF rs] snd_conv Let_def
      by (simp only: us as if_True option.case not_False_eq_True)
  qed
  also have "\<dots> = push_turn a (assistant, failure_notice)
                 (st\<lparr>taskQueue := (taskQueue st)[i := t
                       \<lparr>retries := retries t + 1, status_t := failed\<rparr>]\<rparr>)"
    by (simp add: t1) (simp add: st1_def set_status_def)
  finally show ?thesis
    using a al own unfolding t_def by blast
qed

lemma handleChatMessage_queue:
  "\<exists>task. taskQueue (snd (handleChatMessage userId message now answer st)) = taskQueue st @ [task]"
  by (cases "map_of (activeSessions st) userId")
    (auto simp: handleChatMessage_def Let_def)

lemma maintain_queue [simp]:
  "taskQueue (maintainActiveSessions now elapsed st) = taskQueue st"
  by (simp add: maintainActiveSessions_def)

lemma loop_step_keeps_failed:
  assumes "t \<in> set (taskQueue st)" "status_t t = failed"
  shows "t \<in> set (taskQueue (loop_step e st))"
proof (cases e)
  case (Post message userId now answer)
  show ?thesis
  proof (cases "falsy message \<or> falsy userId")
    case True
    then show ?thesis using assms Post by (simp add: enhanced_chat_def)
  next
    case False
    from handleChatMessage_queue [of "the userId" "the message" now answer st]
    show ?thesis using assms False Post by (auto simp: enhanced_chat_def case_prod_beta)
  qed
next
  case (Tick answers now elapsed)
  from assms obtain j where j: "j < length (taskQueue st)" "taskQueue st ! j = t"
    by (auto simp: in_set_conv_nth)
  with assms have "status_t (taskQueue st ! j) \<noteq> pending" by simp
  from processPendingTasks_keeps [OF j(1) this, of answers now] j(2)
  have "t \<in> set (taskQueue (processPendingTasks answers now st))"
    by (metis nth_mem)
  then have "t \<in> set (taskQueue (maintainActiveSessions now elapsed (processPendingTasks answers now st)))"
    by simp
  then show ?thesis
    using assms(2) Tick by (simp add: tick_def cleanupCompletedTasks_keeps)
qed

lemma loop_steps_keeps_failed:
  "t \<in> set (taskQueue st) \<Longrightarrow> status_t t = failed \<Longrightarrow> t \<in> set (taskQueue (loop_steps es st))"
  by (induction es arbitrary: st) (simp_all add: loop_step_keeps_failed)

text \<open>
  C2. Take any state the loop reaches from its start through requests and rounds.
  Every pending task has its counter within its limit, and a task has failed exactly
  when its counter is above the limit. When the execution of a pending task raises, the
  counter goes up by one; if it is still within the limit the task is pending again and
  no history changes; if it is above the limit the task is failed and the store changes
  in one place only: the notice is appended, once, to the history of the registered
  session of the task's user, which is the session the task refers to. A failed task
  stays in the queue, unchanged, whatever happens afterwards.
\<close>

theorem permanent_failure_notifies_once:
  "let st = loop_steps es new_loop in
    (\<forall>t\<in>set (taskQueue st).
        (status_t t = pending \<longrightarrow> retries t \<le> maxRetries t) \<and>
        (status_t t = failed \<longleftrightarrow> maxRetries t < retries t)) \<and>
    (\<forall>i answer now.
        i < length (taskQueue st) \<and> status_t (taskQueue st ! i) = pending \<and>
        isl (executeTask (taskQueue (set_status i processing st) ! i) answer now
               (set_status i processing st)) \<longrightarrow>
        (let t = taskQueue st ! i; st' = process_task i answer now st in
         if retries t + 1 \<le> maxRetries t then
           taskQueue st' = (taskQueue st)[i := t\<lparr>retries := retries t + 1, status_t := pending\<rparr>] \<and>
           heap st' = heap st
         else
           taskQueue st' = (taskQueue st)[i := t\<lparr>retries := retries t + 1, status_t := failed\<rparr>] \<and>
           (\<exists>a. map_of (activeSessions st) (data_userId (data_t t)) = Some a \<and>
                a < length (heap st) \<and>
                (\<forall>u m s. data_t t = Request u m s \<longrightarrow> s = a) \<and>
                heap st' = (heap st)[a := (heap st ! a)
                  \<lparr>conversationHistory :=
                     conversationHistory (heap st ! a) @ [(assistant, failure_notice)]\<rparr>]))) \<and>
    (\<forall>t es'. t \<in> set (taskQueue st) \<and> status_t t = failed \<longrightarrow>
        t \<in> set (taskQueue (loop_steps es' st)))"
proof -
  define st where "st = loop_steps es new_loop"
  have inv: "loop_inv st" unfolding st_def using new_loop_inv by (rule loop_steps_inv)
  have a: "(status_t t = pending \<longrightarrow> retries t \<le> maxRetries t) \<and>
           (status_t t = failed \<longleftrightarrow> maxRetries t < retries t)" if "t \<in> set (taskQueue st)" for t
  proof -
    from inv that have "task_ok (activeSessions st) t" by (simp add: loop_inv_def)
    then show ?thesis by (cases "status_t t = failed") (auto simp: task_ok_def)
  qed
  have b: "let t = taskQueue st ! i; st' = process_task i answer now st in
         if retries t + 1 \<le> maxRetries t then
           taskQueue st' = (taskQueue st)[i := t\<lparr>retries := retries t + 1, status_t := pending\<rparr>] \<and>
           heap st' = heap st
         else
           taskQueue st' = (taskQueue st)[i := t\<lparr>retries := retries t + 1, status_t := failed\<rparr>] \<and>
           (\<exists>a. map_of (activeSessions st) (data_userId (data_t t)) = Some a \<and>
                a < length (heap st) \<and>
                (\<forall>u m s. data_t t = Request u m s \<longrightarrow> s = a) \<and>
                heap st' = (heap st)[a := (heap st ! a)
                  \<lparr>conversationHistory :=
                     conversationHistory (heap st ! a) @ [(assistant, failure_notice)]\<rparr>])"
    if i: "i < length (taskQueue st)"
      and f: "isl (executeTask (taskQueue (set_status i processing st) ! i) answer now
               (set_status i processing st))"
    for i answer now
  proof (cases "retries (taskQueue st ! i) + 1 \<le> maxRetries (taskQueue st ! i)")
    case True
    show ?thesis
      unfolding Let_def process_task_retried [OF i f True] using True by simp
  next
    case False
    from process_task_failed [OF inv i f False] obtain a where
      a: "map_of (activeSessions st) (data_userId (data_t (taskQueue st ! i))) = Some a"
         "a < length (heap st)"
         "\<forall>u m s. data_t (taskQueue st ! i) = Request u m s \<longrightarrow> s = a"
      and p: "process_task i answer now st =
               push_turn a (assistant, failure_notice)
                 (st\<lparr>taskQueue := (taskQueue st)[i := (taskQueue st ! i)
                       \<lparr>retries := retries (taskQueue st ! i) + 1, status_t := failed\<rparr>]\<rparr>)"
      by blast
    have "heap (process_task i answer now st) = (heap st)[a := (heap st ! a)
                  \<lparr>conversationHistory :=
                     conversationHistory (heap st ! a) @ [(assistant, failure_notice)]\<rparr>]"
      by (simp add: p push_turn_def)
    moreover have "taskQueue (process_task i answer now st) = (taskQueue st)[i := (taskQueue st ! i)
                       \<lparr>retries := retries (taskQueue st ! i) + 1, status_t := failed\<rparr>]"
      by (simp add: p)
    ultimately show ?thesis
      unfolding Let_def using False a by (simp only: if_False) blast
  qed
  have c: "t \<in> set (taskQueue (loop_steps es' st))"
    if "t \<in> set (taskQueue st)" "status_t t = failed" for t es'
    using that by (rule loop_steps_keeps_failed)
  show ?thesis
    unfolding st_def [symmetric] Let_def
    using a b [unfolded Let_def] c by (intro conjI ballI allI impI) blast+
qed

lemma demo_is_request: "isAppGenerationRequest (js ''build me a todo app'')"
  by code_simp

lemma toString_nat_7: "toString_nat 7 = ''7''"
  by (simp add: toString_nat.simps [of 7] digit_char_def)

lemma demo_post:
  "snd (enhanced_chat (Some (js ''build me a todo app'')) (Some ''u1'') 7 (Throws ''down'') new_loop)
     = demo_state 0 pending []"
  by (simp add: enhanced_chat_def falsy_def handleChatMessage_def Let_def new_loop_def
        push_turn_def addTask_def demo_is_request toString_nat_7 demo_state_def)

lemma demo_fails:
  "isl (executeTask (taskQueue (set_status 0 processing (demo_state k pending [])) ! 0)
          (Throws ''down'') now (set_status 0 processing (demo_state k pending [])))"
  by (simp add: demo_state_def set_status_def executeTask_def executeFileGeneration_def)

lemma demo_process_retry:
  "k < 3 \<Longrightarrow> process_task 0 (Throws ''down'') now (demo_state k pending [])
              = demo_state (Suc k) pending []"
  by (simp add: demo_state_def process_task_def set_status_def executeTask_def
        executeFileGeneration_def handleTaskError_def Let_def)

lemma demo_tick:
  "k < 3 \<Longrightarrow> tick (\<lambda>i. Throws ''down'') now (\<lambda>u. 0) (demo_state k pending [])
              = demo_state (Suc k) pending []"
proof -
  assume k: "k < 3"
  have p: "pendingTasks (demo_state k pending []) = [0]"
    by (simp add: pendingTasks_def demo_state_def)
  have "processPendingTasks (\<lambda>i. Throws ''down'') now (demo_state k pending [])
          = demo_state (Suc k) pending []"
    by (simp add: processPendingTasks_def p demo_process_retry [OF k])
  then show ?thesis
    by (simp add: tick_def) (simp add: maintainActiveSessions_def cleanupCompletedTasks_def
        demo_state_def Let_def)
qed

lemma demo_trace:
  "loop_steps
     [Post (Some (js ''build me a todo app'')) (Some ''u1'') 7 (Throws ''down''),
      Tick (\<lambda>i. Throws ''down'') 8 (\<lambda>u. 0),
      Tick (\<lambda>i. Throws ''down'') 9 (\<lambda>u. 0),
      Tick (\<lambda>i. Throws ''down'') 10 (\<lambda>u. 0)] new_loop
   = demo_state 3 pending []"
  by (simp add: demo_post demo_tick numeral_3_eq_3)

theorem permanent_failure_notifies_once_witness:
  "let es = [Post (Some (js ''build me a todo app'')) (Some ''u1'') 7 (Throws ''down''),
             Tick (\<lambda>i. Throws ''down'') 8 (\<lambda>u. 0),
             Tick (\<lambda>i. Throws ''down'') 9 (\<lambda>u. 0),
             Tick (\<lambda>i. Throws ''down'') 10 (\<lambda>u. 0)];
       st = loop_steps es new_loop;
       st' = process_task 0 (Throws ''down'') 11 st
   in 0 < length (taskQueue st) \<and> status_t (taskQueue st ! 0) = pending \<and>
      isl (executeTask (taskQueue (set_status 0 processing st) ! 0) (Throws ''down'') 11
             (set_status 0 processing st)) \<and>
      retries (taskQueue st ! 0) = 3 \<and> maxRetries (taskQueue st ! 0) = 3 \<and>
      map status_t (taskQueue st') = [failed] \<and> map retries (taskQueue st') = [4] \<and>
      map conversationHistory (heap st')
        = [[(user, js ''build me a todo app''), (assistant, failure_notice)]]"
proof -
  let ?st = "demo_state 3 pending []"
  have pre: "0 < length (taskQueue ?st) \<and> status_t (taskQueue ?st ! 0) = pending \<and>
      isl (executeTask (taskQueue (set_status 0 processing ?st) ! 0) (Throws ''down'') 11
             (set_status 0 processing ?st))"
    using demo_fails [of 3 11] by (simp add: demo_state_def)
  have vals: "retries (taskQueue ?st ! 0) = 3" "maxRetries (taskQueue ?st ! 0) = 3"
    by (simp_all add: demo_state_def)
  note t = permanent_failure_notifies_once
    [of "[Post (Some (js ''build me a todo app'')) (Some ''u1'') 7 (Throws ''down''),
          Tick (\<lambda>i. Throws ''down'') 8 (\<lambda>u. 0),
          Tick (\<lambda>i. Throws ''down'') 9 (\<lambda>u. 0),
          Tick (\<lambda>i. Throws ''down'') 10 (\<lambda>u. 0)]",
     unfolded Let_def demo_trace, THEN conjunct2, THEN conjunct1, rule_format,
     of 0 "Throws ''down''" 11, OF pre]
  from t vals have q: "taskQueue (process_task 0 (Throws ''down'') 11 ?st)
      = (taskQueue ?st)[0 := (taskQueue ?st ! 0)\<lparr>retries := 3 + 1, status_t := failed\<rparr>]"
    and h: "\<exists>a. map_of (activeSessions ?st) (data_userId (data_t (taskQueue ?st ! 0))) = Some a \<and>
        heap (process_task 0 (Throws ''down'') 11 ?st) = (heap ?st)[a := (heap ?st ! a)
          \<lparr>conversationHistory :=
             conversationHistory (heap ?st ! a) @ [(assistant, failure_notice)]\<rparr>]"
    by auto
  from h have h': "heap (process_task 0 (Throws ''down'') 11 ?st) = (heap ?st)[0 := (heap ?st ! 0)
          \<lparr>conversationHistory :=
             conversationHistory (heap ?st ! 0) @ [(assistant, failure_notice)]\<rparr>]"
    by (auto simp: demo_state_def)
  show ?thesis
    unfolding Let_def demo_trace
    using pre vals by (simp add: q h') (simp add: demo_state_def)
qed

end
